theory Spec2Isabelle
  imports Complex_Main "HOL-Library.AList" "HOL-Library.Multiset" "HOL-Library.Product_Lexorder"
begin

section \<open>Data model (src/core/types.py)\<close>

text \<open>
  Amounts, prices and quantities are Python floats in the source and rationals in the
  model.  The arithmetic of \<open>use_service\<close> rounds as the source does (see the section on
  double-precision arithmetic).  The arithmetic of the exchange is exact in the model; it
  is that of the source on whole numbers of magnitude below \<open>2 ^ 53\<close>, on which no operation
  rounds, and the theorems that conclude equalities of amounts of the exchange are stated
  for such numbers.  A \<open>datetime\<close> is an integer count of microseconds.  Every call that reads the clock gets the reading as the argument \<open>now\<close>.
  The random \<open>Trade.id\<close> and the fields of \<open>Agent\<close> and \<open>Company\<close> that no operation of the
  exchange reads or writes (\<open>reputation\<close>, \<open>total_pnl\<close>, \<open>created_at\<close>, \<open>daily_active_users\<close>) are
  left out.
\<close>

datatype OrderSide = BUY | SELL

datatype OrderType = MARKET | LIMIT

datatype OrderStatus = PENDING | FILLED | PARTIAL | CANCELLED

datatype CompanyStatus = PRIVATE | IPO | PUBLIC | BANKRUPT

datatype pyerr = KeyError | TypeError | IndexError

record Agent =
  a_id :: string
  a_name :: string
  balance :: rat
  total_trades :: nat
  portfolio :: "(string \<times> rat) list"

record Company =
  c_id :: string
  c_ticker :: string
  c_name :: string
  description :: string
  founder_id :: string
  c_status :: CompanyStatus
  total_shares :: rat
  public_shares :: rat
  share_price :: rat
  market_cap :: rat
  total_api_calls :: nat
  revenue :: rat
  service_type :: string
  service_cost :: rat

record Order =
  o_id :: string
  agent_id :: string
  ticker :: string
  side :: OrderSide
  order_type :: OrderType
  quantity :: rat
  price :: "rat option"
  status :: OrderStatus
  filled_quantity :: rat
  filled_price :: rat
  created_at :: int
  filled_at :: "int option"

record Trade =
  t_ticker :: string
  buyer_id :: string
  seller_id :: string
  t_quantity :: rat
  t_price :: rat
  t_timestamp :: int
  buyer_order_id :: string
  seller_order_id :: string

text \<open>
  An \<open>Order\<close> is a mutable object shared by the order index, the order book and the
  matching engine.  The model keeps the objects in a store (a function from addresses to
  objects, \<open>next_ref\<close> being the first address not yet given out) and lets the index and
  the books hold addresses.  Every call of \<open>submit_order\<close> is given a newly constructed
  \<open>Order\<close>, as the callers in the repository do.
  A heap entry is the tuple \<open>(key, timestamp, order)\<close> of \<open>OrderBook.add_order\<close>; the key is
  optional because \<open>Order.price\<close> is.
\<close>

type_synonym entry = "rat option \<times> int \<times> nat"

record OrderBook =
  ob_ticker :: string
  bids :: "entry list"
  asks :: "entry list"

record Exchange =
  agents :: "(string \<times> Agent) list"
  companies :: "(string \<times> Company) list"
  order_books :: "(string \<times> OrderBook) list"
  trades :: "Trade list"
  orders :: "(string \<times> nat) list"
  price_history :: "(string \<times> (int \<times> rat) list) list"
  objs :: "nat \<Rightarrow> Order"
  next_ref :: nat

section \<open>Strings and dictionaries\<close>

text \<open>\<open>str.upper\<close> and \<open>str.lower\<close> on ASCII text.\<close>

definition upper_char :: "char \<Rightarrow> char" where
  "upper_char c =
     (let n = (of_char c :: nat) in if 97 \<le> n \<and> n \<le> 122 then char_of (n - 32) else c)"

definition upper :: "string \<Rightarrow> string" where
  "upper s = map upper_char s"

definition lower_char :: "char \<Rightarrow> char" where
  "lower_char c =
     (let n = (of_char c :: nat) in if 65 \<le> n \<and> n \<le> 90 then char_of (n + 32) else c)"

definition lower :: "string \<Rightarrow> string" where
  "lower s = map lower_char s"

text \<open>\<open>d.get(k, 0)\<close> on a portfolio, and the read-modify-write of one dictionary value.\<close>

definition pget :: "(string \<times> rat) list \<Rightarrow> string \<Rightarrow> rat" where
  "pget p t = (case map_of p t of None \<Rightarrow> 0 | Some q \<Rightarrow> q)"

definition upd_agent :: "string \<Rightarrow> (Agent \<Rightarrow> Agent) \<Rightarrow> (string \<times> Agent) list \<Rightarrow> (string \<times> Agent) list" where
  "upd_agent k f ags = (case map_of ags k of None \<Rightarrow> ags | Some a \<Rightarrow> AList.update k (f a) ags)"

definition upd_obj :: "nat \<Rightarrow> (Order \<Rightarrow> Order) \<Rightarrow> (nat \<Rightarrow> Order) \<Rightarrow> (nat \<Rightarrow> Order)" where
  "upd_obj r f st = st(r := f (st r))"

text \<open>Python truthiness of an optional float: \<open>None\<close> and \<open>0.0\<close> are false.\<close>

definition truthy :: "rat option \<Rightarrow> bool" where
  "truthy p = (case p of None \<Rightarrow> False | Some v \<Rightarrow> v \<noteq> 0)"

section \<open>The heap of the standard library (heapq)\<close>

text \<open>
  Comparison of two heap entries, as Python compares tuples: the first component that
  differs decides.  \<open>None\<close> against a float, and two distinct \<open>Order\<close> objects (the
  dataclass defines equality but no ordering), raise \<open>TypeError\<close>.
\<close>

definition entry_lt :: "(nat \<Rightarrow> Order) \<Rightarrow> entry \<Rightarrow> entry \<Rightarrow> pyerr + bool" where
  "entry_lt st x y =
     (case x of (k1, t1, r1) \<Rightarrow> case y of (k2, t2, r2) \<Rightarrow>
        if k1 \<noteq> k2 then
          (case k1 of None \<Rightarrow> Inl TypeError
           | Some p1 \<Rightarrow> (case k2 of None \<Rightarrow> Inl TypeError | Some p2 \<Rightarrow> Inr (p1 < p2)))
        else if t1 \<noteq> t2 then Inr (t1 < t2)
        else if r1 = r2 \<or> st r1 = st r2 then Inr False
        else Inl TypeError)"

function siftdown :: "(nat \<Rightarrow> Order) \<Rightarrow> entry list \<Rightarrow> nat \<Rightarrow> nat \<Rightarrow> entry \<Rightarrow> pyerr + entry list" where
  "siftdown st heap startpos pos newitem =
     (if startpos < pos then
        (case entry_lt st newitem (heap ! ((pos - 1) div 2)) of
           Inl e \<Rightarrow> Inl e
         | Inr b \<Rightarrow>
             if b then siftdown st (heap[pos := heap ! ((pos - 1) div 2)]) startpos ((pos - 1) div 2) newitem
             else Inr (heap[pos := newitem]))
      else Inr (heap[pos := newitem]))"
  by pat_completeness auto
termination
  by (relation "measure (\<lambda>(st, heap, startpos, pos, newitem). pos)") auto

declare siftdown.simps [simp del]

definition heappush :: "(nat \<Rightarrow> Order) \<Rightarrow> entry list \<Rightarrow> entry \<Rightarrow> pyerr + entry list" where
  "heappush st heap item = siftdown st (heap @ [item]) 0 (length heap) item"

text \<open>
  \<open>_siftup\<close>: the smaller child moves up until a leaf is reached (\<open>bubble\<close>), then the
  displaced item is put there and sifted down.
\<close>

function bubble :: "(nat \<Rightarrow> Order) \<Rightarrow> entry list \<Rightarrow> nat \<Rightarrow> pyerr + (entry list \<times> nat)" where
  "bubble st heap pos =
     (if 2 * pos + 1 < length heap then
        (if 2 * pos + 2 < length heap then
           (case entry_lt st (heap ! (2 * pos + 1)) (heap ! (2 * pos + 2)) of
              Inl e \<Rightarrow> Inl e
            | Inr b \<Rightarrow>
                if b then bubble st (heap[pos := heap ! (2 * pos + 1)]) (2 * pos + 1)
                else bubble st (heap[pos := heap ! (2 * pos + 2)]) (2 * pos + 2))
         else bubble st (heap[pos := heap ! (2 * pos + 1)]) (2 * pos + 1))
      else Inr (heap, pos))"
  by pat_completeness auto
termination
  by (relation "measure (\<lambda>(st, heap, pos). length heap - pos)") auto

declare bubble.simps [simp del]

definition siftup :: "(nat \<Rightarrow> Order) \<Rightarrow> entry list \<Rightarrow> nat \<Rightarrow> pyerr + entry list" where
  "siftup st heap pos =
     (case bubble st heap pos of
        Inl e \<Rightarrow> Inl e
      | Inr (heap', leaf) \<Rightarrow> siftdown st (heap'[leaf := heap ! pos]) pos leaf (heap ! pos))"

definition heappop :: "(nat \<Rightarrow> Order) \<Rightarrow> entry list \<Rightarrow> pyerr + (entry \<times> entry list)" where
  "heappop st heap =
     (if heap = [] then Inl IndexError
      else if butlast heap = [] then Inr (last heap, [])
      else (case siftup st ((butlast heap)[0 := last heap]) 0 of
              Inl e \<Rightarrow> Inl e
            | Inr heap' \<Rightarrow> Inr (hd heap, heap')))"

subsection \<open>The heap operations keep the entries\<close>

lemma siftdown_mset:
  "siftdown st h sp pos x = Inr h' \<Longrightarrow> pos < length h \<Longrightarrow> mset h' = mset (h[pos := x])"
proof (induction st h sp pos x arbitrary: h' rule: siftdown.induct)
  case (1 st heap startpos pos newitem)
  let ?pp = "(pos - 1) div 2"
  show ?case
  proof (cases "startpos < pos")
    case False
    with "1.prems" show ?thesis by (simp add: siftdown.simps[of st heap])
  next
    case True
    then have pp: "?pp < pos" by simp
    show ?thesis
    proof (cases "entry_lt st newitem (heap ! ?pp)")
      case (Inl e)
      with True "1.prems" show ?thesis by (simp add: siftdown.simps[of st heap])
    next
      case (Inr b)
      show ?thesis
      proof (cases b)
        case False
        with True Inr "1.prems" show ?thesis by (simp add: siftdown.simps[of st heap])
      next
        case bt: True
        from True Inr bt "1.prems"
        have r: "siftdown st (heap[pos := heap ! ?pp]) startpos ?pp newitem = Inr h'"
          by (simp add: siftdown.simps[of st heap])
        have "mset h' = mset ((heap[pos := heap ! ?pp])[?pp := newitem])"
          using "1.IH"[OF True Inr bt r] pp "1.prems"(2) by simp
        also have "(heap[pos := heap ! ?pp])[?pp := newitem]
            = (heap[pos := newitem])[?pp := newitem, pos := heap ! ?pp]"
          using pp list_update_swap[of ?pp pos "heap[pos := newitem]" newitem "heap ! ?pp"]
          by simp
        also have "mset \<dots> = mset (heap[pos := newitem])"
          using mset_swap[of pos "heap[pos := newitem]" ?pp] pp "1.prems"(2)
          by simp
        finally show ?thesis .
      qed
    qed
  qed
qed

lemma siftdown_length:
  "siftdown st h sp pos x = Inr h' \<Longrightarrow> length h' = length h"
  by (induction st h sp pos x arbitrary: h' rule: siftdown.induct)
     (subst (asm) (2) siftdown.simps, auto split: if_splits sum.splits)

lemma bubble_props:
  "bubble st h pos = Inr (h', leaf) \<Longrightarrow> pos < length h \<Longrightarrow>
     leaf < length h \<and> length h' = length h \<and> mset (h'[leaf := x]) = mset (h[pos := x])"
proof (induction st h pos arbitrary: h' leaf rule: bubble.induct)
  case (1 st heap pos)
  show ?case
  proof (cases "2 * pos + 1 < length heap")
    case False
    with "1.prems" show ?thesis by (simp add: bubble.simps[of st heap pos])
  next
    case True
    define c where "c = (if 2 * pos + 2 < length heap \<and> entry_lt st (heap ! (2 * pos + 1)) (heap ! (2 * pos + 2)) = Inr False
                         then 2 * pos + 2 else 2 * pos + 1)"
    have c: "c < length heap" "pos < c" using True by (auto simp: c_def)
    have r: "bubble st (heap[pos := heap ! c]) c = Inr (h', leaf)"
      using "1.prems"(1) True
      by (subst (asm) bubble.simps) (auto simp: c_def split: if_splits sum.splits)
    have ih: "leaf < length (heap[pos := heap ! c]) \<and> length h' = length (heap[pos := heap ! c]) \<and>
              mset (h'[leaf := x]) = mset ((heap[pos := heap ! c])[c := x])"
    proof (cases "2 * pos + 2 < length heap")
      case False
      then have ceq: "c = 2 * pos + 1" by (simp add: c_def)
      show ?thesis using "1.IH"(3)[OF True False, of h' leaf] r c unfolding ceq by simp
    next
      case t2: True
      show ?thesis
      proof (cases "entry_lt st (heap ! (2 * pos + 1)) (heap ! (2 * pos + 2))")
        case (Inl e)
        with True t2 "1.prems"(1) show ?thesis by (simp add: bubble.simps[of st heap pos])
      next
        case (Inr b)
        show ?thesis
        proof (cases b)
          case bt: True
          then have ceq: "c = 2 * pos + 1" using Inr by (simp add: c_def)
          show ?thesis using "1.IH"(1)[OF True t2 Inr bt, of h' leaf] r c unfolding ceq by simp
        next
          case bf: False
          then have ceq: "c = 2 * pos + 2" using Inr t2 by (simp add: c_def)
          show ?thesis using "1.IH"(2)[OF True t2 Inr bf, of h' leaf] r c unfolding ceq by simp
        qed
      qed
    qed
    have "(heap[pos := heap ! c])[c := x] = (heap[pos := x])[c := x, pos := heap ! c]"
      using c list_update_swap[of c pos "heap[pos := x]" x "heap ! c"] by simp
    moreover have "mset ((heap[pos := x])[c := x, pos := heap ! c]) = mset (heap[pos := x])"
      using mset_swap[of pos "heap[pos := x]" c] c "1.prems"(2) by simp
    ultimately show ?thesis using ih by simp
  qed
qed

lemma siftup_mset:
  assumes "siftup st h pos = Inr h'" "pos < length h"
  shows "mset h' = mset h"
proof -
  from assms(1) obtain hb leaf where b: "bubble st h pos = Inr (hb, leaf)"
    and sd: "siftdown st (hb[leaf := h ! pos]) pos leaf (h ! pos) = Inr h'"
    by (auto simp: siftup_def split: sum.splits)
  from bubble_props[OF b assms(2), of "h ! pos"]
  have p: "leaf < length h" "length hb = length h" "mset (hb[leaf := h ! pos]) = mset h"
    by simp_all
  from siftdown_mset[OF sd] p show ?thesis by simp
qed

lemma heappop_mset:
  assumes "heappop st h = Inr (e, h')"
  shows "h \<noteq> [] \<and> e = hd h \<and> mset h = add_mset e (mset h')"
proof (cases "h = []")
  case True
  with assms show ?thesis by (simp add: heappop_def)
next
  case ne: False
  show ?thesis
  proof (cases "butlast h = []")
    case True
    with ne have "h = [last h]" by (metis append_butlast_last_id append_Nil)
    then obtain a where "h = [a]" by blast
    with assms show ?thesis by (simp add: heappop_def)
  next
    case False
    with ne assms have su: "siftup st ((butlast h)[0 := last h]) 0 = Inr h'" and e: "e = hd h"
      by (auto simp: heappop_def split: sum.splits)
    from False obtain a as where bl: "butlast h = a # as" by (cases "butlast h") auto
    have h: "h = a # as @ [last h]" using ne bl by (metis append_butlast_last_id append_Cons)
    have "mset h' = mset ((butlast h)[0 := last h])"
      using siftup_mset[OF su] bl by simp
    also have "\<dots> = add_mset (last h) (mset as)" by (simp add: bl)
    finally have "add_mset e (mset h') = add_mset a (add_mset (last h) (mset as))"
      using e h by (metis list.sel(1))
    also have "\<dots> = mset h" by (subst (2) h) simp
    finally show ?thesis using ne e by simp
  qed
qed


lemma heappop_length:
  "heappop st h = Inr (e, h') \<Longrightarrow> length h' < length h"
proof -
  assume "heappop st h = Inr (e, h')"
  then have "mset h = add_mset e (mset h')" by (simp add: heappop_mset)
  then have "size (mset h) = Suc (size (mset h'))" by simp
  then show ?thesis by simp
qed

section \<open>OrderBook (src/core/exchange.py)\<close>

definition add_order :: "(nat \<Rightarrow> Order) \<Rightarrow> OrderBook \<Rightarrow> nat \<Rightarrow> pyerr + OrderBook" where
  "add_order st book r =
     (if side (st r) = BUY then
        (case price (st r) of
           None \<Rightarrow> Inl TypeError
         | Some p \<Rightarrow>
             (case heappush st (bids book) (Some (- p), created_at (st r), r) of
                Inl e \<Rightarrow> Inl e
              | Inr h \<Rightarrow> Inr (book\<lparr>bids := h\<rparr>)))
      else
        (case heappush st (asks book) (price (st r), created_at (st r), r) of
           Inl e \<Rightarrow> Inl e
         | Inr h \<Rightarrow> Inr (book\<lparr>asks := h\<rparr>)))"

text \<open>
  The loop of \<open>best_bid\<close> and \<open>best_ask\<close> on the heap of one side: the head is returned
  when its order is PENDING, and popped otherwise.
\<close>

function best_loop :: "(nat \<Rightarrow> Order) \<Rightarrow> entry list \<Rightarrow> pyerr + (nat option \<times> entry list)" where
  "best_loop st heap =
     (if heap = [] then Inr (None, heap)
      else if status (st (snd (snd (hd heap)))) = PENDING then Inr (Some (snd (snd (hd heap))), heap)
      else (case heappop st heap of
              Inl e \<Rightarrow> Inl e
            | Inr (x, heap') \<Rightarrow> best_loop st heap'))"
  by pat_completeness auto
termination
  by (relation "measure (\<lambda>(st, heap). length heap)") (auto simp: heappop_length)

declare best_loop.simps [simp del]

definition best_bid :: "(nat \<Rightarrow> Order) \<Rightarrow> OrderBook \<Rightarrow> pyerr + (nat option \<times> OrderBook)" where
  "best_bid st book =
     (case best_loop st (bids book) of
        Inl e \<Rightarrow> Inl e
      | Inr (r, h) \<Rightarrow> Inr (r, book\<lparr>bids := h\<rparr>))"

definition best_ask :: "(nat \<Rightarrow> Order) \<Rightarrow> OrderBook \<Rightarrow> pyerr + (nat option \<times> OrderBook)" where
  "best_ask st book =
     (case best_loop st (asks book) of
        Inl e \<Rightarrow> Inl e
      | Inr (r, h) \<Rightarrow> Inr (r, book\<lparr>asks := h\<rparr>))"

section \<open>Exchange (src/core/exchange.py)\<close>

text \<open>
  An operation that can raise returns a sum: \<open>Inl\<close> the exception, \<open>Inr\<close> the result with the
  new state.  An exception ends the call; what the call had changed before it raised is
  not part of the model.
\<close>

definition register_agent :: "Exchange \<Rightarrow> string \<Rightarrow> string \<Rightarrow> rat \<Rightarrow> Agent \<times> Exchange" where
  "register_agent s aid name initial_balance =
     (case map_of (agents s) aid of
        Some a \<Rightarrow> (a, s)
      | None \<Rightarrow>
          (let agent = \<lparr>a_id = aid, a_name = name, balance = initial_balance,
                         total_trades = 0, portfolio = []\<rparr>
           in (agent, s\<lparr>agents := AList.update aid agent (agents s)\<rparr>)))"

definition CREATION_COST :: rat where
  "CREATION_COST = 10000"

definition create_company ::
  "Exchange \<Rightarrow> string \<Rightarrow> string \<Rightarrow> string \<Rightarrow> string \<Rightarrow> string \<Rightarrow> rat \<Rightarrow> Company option \<times> Exchange" where
  "create_company s fid tkr name descr stype scost =
     (case map_of (agents s) fid of
        None \<Rightarrow> (None, s)
      | Some founder \<Rightarrow>
          if balance founder < CREATION_COST then (None, s)
          else if map_of (companies s) tkr \<noteq> None then (None, s)
          else
            (let company = \<lparr>c_id = lower tkr, c_ticker = upper tkr, c_name = name,
                             description = descr, founder_id = fid, c_status = PRIVATE,
                             total_shares = 1000000, public_shares = 0, share_price = 1,
                             market_cap = 0, total_api_calls = 0, revenue = 0,
                             service_type = stype, service_cost = scost\<rparr>;
                 ags1 = upd_agent fid (\<lambda>a. a\<lparr>balance := balance a - CREATION_COST\<rparr>) (agents s);
                 ags2 = upd_agent fid
                          (\<lambda>a. a\<lparr>portfolio := AList.update (upper tkr) (total_shares company) (portfolio a)\<rparr>)
                          ags1
             in (Some company,
                 s\<lparr>agents := ags2,
                   companies := AList.update (upper tkr) company (companies s),
                   order_books := AList.update (upper tkr)
                                    \<lparr>ob_ticker = upper tkr, bids = [], asks = []\<rparr> (order_books s)\<rparr>)))"

text \<open>\<open>_execute_trade\<close>, block by block: the transfers, the orders, the statistics.\<close>

definition transfers ::
  "string \<Rightarrow> string \<Rightarrow> string \<Rightarrow> rat \<Rightarrow> rat \<Rightarrow> (string \<times> Agent) list \<Rightarrow> (string \<times> Agent) list" where
  "transfers bk sk tkr qty total_cost ags =
     (let ags1 = upd_agent bk (\<lambda>a. a\<lparr>balance := balance a - total_cost\<rparr>) ags;
          ags2 = upd_agent sk (\<lambda>a. a\<lparr>balance := balance a + total_cost\<rparr>) ags1;
          ags3 = upd_agent bk
                   (\<lambda>a. a\<lparr>portfolio := AList.update tkr (pget (portfolio a) tkr + qty) (portfolio a)\<rparr>) ags2;
          ags4 = upd_agent sk
                   (\<lambda>a. a\<lparr>portfolio := AList.update tkr (pget (portfolio a) tkr - qty) (portfolio a)\<rparr>) ags3
      in upd_agent sk
           (\<lambda>a. if pget (portfolio a) tkr \<le> 0 then a\<lparr>portfolio := AList.delete tkr (portfolio a)\<rparr> else a)
           ags4)"

definition set_filled :: "int \<Rightarrow> Order \<Rightarrow> Order" where
  "set_filled now ord =
     (if quantity ord \<le> filled_quantity ord then ord\<lparr>status := FILLED, filled_at := Some now\<rparr> else ord)"

definition update_orders :: "nat \<Rightarrow> nat \<Rightarrow> rat \<Rightarrow> rat \<Rightarrow> int \<Rightarrow> (nat \<Rightarrow> Order) \<Rightarrow> (nat \<Rightarrow> Order)" where
  "update_orders buyer_order seller_order qty p now st =
     (let st1 = upd_obj buyer_order (\<lambda>ord. ord\<lparr>filled_quantity := filled_quantity ord + qty\<rparr>) st;
          st2 = upd_obj seller_order (\<lambda>ord. ord\<lparr>filled_quantity := filled_quantity ord + qty\<rparr>) st1;
          st3 = upd_obj buyer_order (\<lambda>ord. ord\<lparr>filled_price := p\<rparr>) st2;
          st4 = upd_obj seller_order (\<lambda>ord. ord\<lparr>filled_price := p\<rparr>) st3;
          st5 = upd_obj buyer_order (set_filled now) st4
      in upd_obj seller_order (set_filled now) st5)"

definition stats :: "string \<Rightarrow> string \<Rightarrow> (string \<times> Agent) list \<Rightarrow> (string \<times> Agent) list" where
  "stats bk sk ags =
     upd_agent sk (\<lambda>a. a\<lparr>total_trades := total_trades a + 1\<rparr>)
       (upd_agent bk (\<lambda>a. a\<lparr>total_trades := total_trades a + 1\<rparr>) ags)"

definition execute_trade :: "Exchange \<Rightarrow> nat \<Rightarrow> nat \<Rightarrow> rat \<Rightarrow> rat option \<Rightarrow> int \<Rightarrow> pyerr + Exchange" where
  "execute_trade s order1 order2 qty prc now =
     (let buyer_order = (if side (objs s order1) = BUY then order1 else order2);
          seller_order = (if side (objs s order1) = BUY then order2 else order1);
          bk = agent_id (objs s buyer_order);
          sk = agent_id (objs s seller_order);
          tkr = ticker (objs s order1)
      in case map_of (agents s) bk of
           None \<Rightarrow> Inl KeyError
         | Some buyer \<Rightarrow>
        (case map_of (agents s) sk of
           None \<Rightarrow> Inl KeyError
         | Some seller \<Rightarrow>
        (case prc of
           None \<Rightarrow> Inl TypeError
         | Some p \<Rightarrow>
        (case map_of (companies s) tkr of
           None \<Rightarrow> Inl KeyError
         | Some company \<Rightarrow>
             Inr (s\<lparr>agents := stats bk sk (transfers bk sk tkr qty (qty * p) (agents s)),
                    objs := update_orders buyer_order seller_order qty p now (objs s),
                    trades := trades s @
                      [\<lparr>t_ticker = tkr, buyer_id = a_id buyer, seller_id = a_id seller,
                        t_quantity = qty, t_price = p, t_timestamp = now,
                        buyer_order_id = o_id (objs s buyer_order),
                        seller_order_id = o_id (objs s seller_order)\<rparr>],
                    companies := AList.update tkr
                      (company\<lparr>share_price := p, market_cap := total_shares company * p\<rparr>) (companies s),
                    price_history := AList.update tkr
                      ((case map_of (price_history s) tkr of None \<Rightarrow> [] | Some h \<Rightarrow> h) @ [(now, p)])
                      (price_history s)\<rparr>)))))"

text \<open>
  \<open>_get_market_price\<close>.  The lookup of the best order pops stale heads, so the state is
  returned with the price.
\<close>

definition set_book :: "string \<Rightarrow> OrderBook \<Rightarrow> Exchange \<Rightarrow> Exchange" where
  "set_book tkr book s = s\<lparr>order_books := AList.update tkr book (order_books s)\<rparr>"

definition company_price :: "Exchange \<Rightarrow> string \<Rightarrow> pyerr + rat option" where
  "company_price s tkr =
     (case map_of (companies s) tkr of None \<Rightarrow> Inl KeyError | Some c \<Rightarrow> Inr (Some (share_price c)))"

definition get_market_price :: "Exchange \<Rightarrow> string \<Rightarrow> OrderSide \<Rightarrow> pyerr + (rat option \<times> Exchange)" where
  "get_market_price s tkr sd =
     (case map_of (order_books s) tkr of
        None \<Rightarrow> (case company_price s tkr of Inl e \<Rightarrow> Inl e | Inr v \<Rightarrow> Inr (v, s))
      | Some book \<Rightarrow>
          (case (if sd = BUY then best_ask (objs s) book else best_bid (objs s) book) of
             Inl e \<Rightarrow> Inl e
           | Inr (r, book') \<Rightarrow>
               (case r of
                  Some c \<Rightarrow> Inr (price (objs s c), set_book tkr book' s)
                | None \<Rightarrow>
                    (case company_price s tkr of
                       Inl e \<Rightarrow> Inl e
                     | Inr v \<Rightarrow> Inr (v, set_book tkr book' s)))))"

text \<open>
  One turn of the loop of \<open>_match_order\<close> for the order at address \<open>a\<close>: the result is
  \<open>(False, s')\<close> at a \<open>break\<close> and \<open>(True, s')\<close> after a trade.  The book is the one under the
  order's own \<open>ticker\<close>; the loop is entered only when it exists.
\<close>

definition beyond_limit :: "Order \<Rightarrow> Order \<Rightarrow> pyerr + bool" where
  "beyond_limit ord counter =
     (case price ord of
        None \<Rightarrow> Inr False
      | Some p \<Rightarrow>
          if p = 0 then Inr False
          else (case price counter of
                  None \<Rightarrow> Inl TypeError
                | Some cp \<Rightarrow> Inr (if side ord = BUY then p < cp else cp < p)))"

definition match_step :: "Exchange \<Rightarrow> nat \<Rightarrow> int \<Rightarrow> pyerr + (bool \<times> Exchange)" where
  "match_step s a now =
     (case map_of (order_books s) (ticker (objs s a)) of
        None \<Rightarrow> Inr (False, s)
      | Some book \<Rightarrow>
          (case (if side (objs s a) = BUY then best_ask (objs s) book else best_bid (objs s) book) of
             Inl e \<Rightarrow> Inl e
           | Inr (r, book') \<Rightarrow>
               (case r of
                  None \<Rightarrow> Inr (False, set_book (ticker (objs s a)) book' s)
                | Some c \<Rightarrow>
                    (case beyond_limit (objs s a) (objs s c) of
                       Inl e \<Rightarrow> Inl e
                     | Inr stop \<Rightarrow>
                         if stop then Inr (False, set_book (ticker (objs s a)) book' s)
                         else
                           (case execute_trade (set_book (ticker (objs s a)) book' s) a c
                                   (min (quantity (objs s a) - filled_quantity (objs s a))
                                        (quantity (objs s c) - filled_quantity (objs s c)))
                                   (price (objs s c)) now of
                              Inl e \<Rightarrow> Inl e
                            | Inr s' \<Rightarrow> Inr (True, s'))))))"

text \<open>An entry is pending when the order it refers to has status PENDING.\<close>

definition pending :: "(nat \<Rightarrow> Order) \<Rightarrow> entry \<Rightarrow> bool" where
  "pending st e = (status (st (snd (snd e))) = PENDING)"

lemma best_loop_props:
  "best_loop st h = Inr (r, h') \<Longrightarrow>
     filter_mset (pending st) (mset h') = filter_mset (pending st) (mset h) \<and>
     (\<exists>rm. mset h = mset h' + rm \<and> (\<forall>e. e \<in># rm \<longrightarrow> \<not> pending st e)) \<and>
     (case r of None \<Rightarrow> h' = []
      | Some c \<Rightarrow> h' \<noteq> [] \<and> c = snd (snd (hd h')) \<and> status (st c) = PENDING)"
proof (induction st h arbitrary: r h' rule: best_loop.induct)
  case (1 st heap)
  show ?case
  proof (cases "heap = []")
    case True
    with "1.prems" show ?thesis by (subst (asm) best_loop.simps) simp
  next
    case ne: False
    show ?thesis
    proof (cases "status (st (snd (snd (hd heap)))) = PENDING")
      case True
      with ne "1.prems" show ?thesis by (subst (asm) best_loop.simps) auto
    next
      case False
      with ne "1.prems" obtain x hp where pop: "heappop st heap = Inr (x, hp)"
        and rec: "best_loop st hp = Inr (r, h')"
        by (subst (asm) best_loop.simps) (auto split: sum.splits)
      from heappop_mset[OF pop] have x: "x = hd heap" and m: "mset heap = add_mset x (mset hp)"
        by simp_all
      have np: "\<not> pending st x" using False x by (simp add: pending_def)
      from "1.IH"[OF ne False pop refl rec]
      obtain rm where ih: "filter_mset (pending st) (mset h') = filter_mset (pending st) (mset hp)"
        "mset hp = mset h' + rm" "\<forall>e. e \<in># rm \<longrightarrow> \<not> pending st e"
        "(case r of None \<Rightarrow> h' = []
          | Some c \<Rightarrow> h' \<noteq> [] \<and> c = snd (snd (hd h')) \<and> status (st c) = PENDING)"
        by blast
      have "mset heap = mset h' + add_mset x rm" using m ih(2) by simp
      moreover have "\<forall>e. e \<in># add_mset x rm \<longrightarrow> \<not> pending st e" using ih(3) np by auto
      moreover have "filter_mset (pending st) (mset h') = filter_mset (pending st) (mset heap)"
        using ih(1) m np by simp
      ultimately show ?thesis using ih(4) by blast
    qed
  qed
qed

lemma upd_obj_apply: "upd_obj r f st x = (if x = r then f (st r) else st x)"
  by (simp add: upd_obj_def)

lemma set_filled_fields [simp]:
  "quantity (set_filled now ord) = quantity ord"
  "filled_quantity (set_filled now ord) = filled_quantity ord"
  "side (set_filled now ord) = side ord"
  "ticker (set_filled now ord) = ticker ord"
  "order_type (set_filled now ord) = order_type ord"
  "price (set_filled now ord) = price ord"
  "agent_id (set_filled now ord) = agent_id ord"
  "o_id (set_filled now ord) = o_id ord"
  "created_at (set_filled now ord) = created_at ord"
  by (simp_all add: set_filled_def)

lemma set_filled_status:
  "status (set_filled now ord) = (if quantity ord \<le> filled_quantity ord then FILLED else status ord)"
  by (simp add: set_filled_def)


lemma update_orders_static:
  "quantity (update_orders b c q p now st x) = quantity (st x)"
  "side (update_orders b c q p now st x) = side (st x)"
  "ticker (update_orders b c q p now st x) = ticker (st x)"
  "order_type (update_orders b c q p now st x) = order_type (st x)"
  "price (update_orders b c q p now st x) = price (st x)"
  "agent_id (update_orders b c q p now st x) = agent_id (st x)"
  "o_id (update_orders b c q p now st x) = o_id (st x)"
  "created_at (update_orders b c q p now st x) = created_at (st x)"
  by (simp_all add: update_orders_def upd_obj_apply Let_def)

lemma update_orders_filled:
  "filled_quantity (update_orders b c q p now st x) =
     filled_quantity (st x) + (if x = b then q else 0) + (if x = c then q else 0)"
  by (simp add: update_orders_def upd_obj_apply Let_def)

lemma update_orders_status:
  "status (update_orders b c q p now st x) =
     (if (x = b \<or> x = c) \<and> quantity (st x) \<le> filled_quantity (update_orders b c q p now st x)
      then FILLED else status (st x))"
  by (simp add: update_orders_def upd_obj_apply Let_def set_filled_status)

subsection \<open>The matching loop terminates\<close>

text \<open>
  Every trade fills the incoming order or the resting one, and a filled resting order is
  no longer PENDING: the number of PENDING entries of the opposite heap decreases.
\<close>

definition opp_heap :: "Exchange \<Rightarrow> nat \<Rightarrow> entry list" where
  "opp_heap s a =
     (case map_of (order_books s) (ticker (objs s a)) of
        None \<Rightarrow> []
      | Some book \<Rightarrow> if side (objs s a) = BUY then asks book else bids book)"

definition match_measure :: "Exchange \<Rightarrow> nat \<Rightarrow> nat" where
  "match_measure s a =
     (if filled_quantity (objs s a) < quantity (objs s a)
      then Suc (length (filter (pending (objs s)) (opp_heap s a))) else 0)"

lemma execute_trade_objs:
  assumes "execute_trade s a c q prc now = Inr s'"
  shows "\<exists>p b d. prc = Some p \<and> ((b = a \<and> d = c) \<or> (b = c \<and> d = a)) \<and>
           objs s' = update_orders b d q p now (objs s) \<and> order_books s' = order_books s"
proof -
  let ?b = "if side (objs s a) = BUY then a else c" and ?d = "if side (objs s a) = BUY then c else a"
  from assms obtain p where "prc = Some p" "objs s' = update_orders ?b ?d q p now (objs s)"
    "order_books s' = order_books s"
    by (auto simp: execute_trade_def Let_def split: option.splits)
  moreover have "(?b = a \<and> ?d = c) \<or> (?b = c \<and> ?d = a)" by simp
  ultimately show ?thesis by blast
qed

lemma best_side_props:
  assumes "(if sd = BUY then best_ask st book else best_bid st book) = Inr (r, book')"
  shows "\<exists>h'. best_loop st (if sd = BUY then asks book else bids book) = Inr (r, h') \<and>
            (if sd = BUY then asks book' else bids book') = h'"
  using assms by (auto simp: best_ask_def best_bid_def split: if_splits sum.splits)

lemma filter_pending_less:
  assumes mono: "\<And>e. pending st' e \<Longrightarrow> pending st e"
    and e: "e \<in> set h" "pending st e" "\<not> pending st' e"
  shows "length (filter (pending st') h) < length (filter (pending st) h)"
proof -
  have "filter (pending st') h = filter (pending st') (filter (pending st) h)"
    using mono by (auto intro: filter_cong)
  moreover have "length (filter (pending st') (filter (pending st) h)) < length (filter (pending st) h)"
    using e by (intro length_filter_less[of e]) auto
  ultimately show ?thesis by simp
qed

lemma match_step_decreases:
  assumes lt: "filled_quantity (objs s a) < quantity (objs s a)"
    and step: "match_step s a now = Inr (True, s')"
  shows "match_measure s' a < match_measure s a"
proof -
  let ?st = "objs s" and ?k = "ticker (objs s a)"
  from step obtain book where bk: "map_of (order_books s) ?k = Some book"
    by (auto simp: match_step_def split: option.splits)
  from step bk obtain r book' where
    best: "(if side (?st a) = BUY then best_ask ?st book else best_bid ?st book) = Inr (r, book')"
    by (auto simp: match_step_def split: sum.splits)
  from step bk best obtain c where r: "r = Some c"
    by (cases r) (auto simp: match_step_def)
  let ?q = "min (quantity (?st a) - filled_quantity (?st a)) (quantity (?st c) - filled_quantity (?st c))"
  from step bk best r have ex: "execute_trade (set_book ?k book' s) a c ?q (price (?st c)) now = Inr s'"
    by (auto simp: match_step_def split: sum.splits if_splits)
  from best_side_props[OF best] obtain h' where
    bl: "best_loop ?st (if side (?st a) = BUY then asks book else bids book) = Inr (r, h')"
    and h': "(if side (?st a) = BUY then asks book' else bids book') = h'" by blast
  from best_loop_props[OF bl] r have
    fm: "filter_mset (pending ?st) (mset h') = filter_mset (pending ?st) (mset (opp_heap s a))"
    and hd: "h' \<noteq> []" "c = snd (snd (hd h'))" "status (?st c) = PENDING"
    using bk by (auto simp: opp_heap_def)
  from execute_trade_objs[OF ex] obtain p b d where
    bd: "(b = a \<and> d = c) \<or> (b = c \<and> d = a)"
    and objs': "objs s' = update_orders b d ?q p now ?st"
    and books': "order_books s' = order_books (set_book ?k book' s)"
    by (auto simp: set_book_def)
  have oh': "opp_heap s' a = h'"
    using books' objs' h' by (simp add: opp_heap_def set_book_def update_orders_static update_conv')
  have len: "length (filter (pending ?st) h') = length (filter (pending ?st) (opp_heap s a))"
    using fm by (metis mset_filter size_mset)
  show ?thesis
  proof (cases "quantity (?st a) - filled_quantity (?st a) \<le> quantity (?st c) - filled_quantity (?st c)")
    case True
    then have "?q = quantity (?st a) - filled_quantity (?st a)" by simp
    then have "quantity (objs s' a) \<le> filled_quantity (objs s' a)"
      using bd lt unfolding objs' update_orders_static update_orders_filled by auto
    then show ?thesis using lt by (simp add: match_measure_def)
  next
    case False
    then have q: "?q = quantity (?st c) - filled_quantity (?st c)" and ac: "a \<noteq> c" by auto
    have "quantity (?st c) \<le> filled_quantity (objs s' c)"
      using bd ac q unfolding objs' update_orders_filled by auto
    then have st: "status (objs s' c) = FILLED"
      using bd unfolding objs' update_orders_status by auto
    have mono: "\<And>e. pending (objs s') e \<Longrightarrow> pending ?st e"
      unfolding objs' pending_def update_orders_status by (auto split: if_splits)
    have "length (filter (pending (objs s')) h') < length (filter (pending ?st) h')"
      using hd st by (intro filter_pending_less[OF mono, where e = "hd h'"]) (auto simp: pending_def)
    then show ?thesis using lt len oh' by (simp add: match_measure_def)
  qed
qed

text \<open>The \<open>while\<close> loop of \<open>_match_order\<close>.\<close>

function match_loop :: "Exchange \<Rightarrow> nat \<Rightarrow> int \<Rightarrow> pyerr + Exchange" where
  "match_loop s a now =
     (if filled_quantity (objs s a) < quantity (objs s a) then
        (case match_step s a now of
           Inl e \<Rightarrow> Inl e
         | Inr (go, s') \<Rightarrow> if go then match_loop s' a now else Inr s')
      else Inr s)"
  by pat_completeness auto
termination
  by (relation "measure (\<lambda>(s, a, now). match_measure s a)") (auto simp: match_step_decreases)


declare match_loop.simps [simp del]

text \<open>The status update that ends \<open>_match_order\<close>.\<close>

definition finish_status :: "Order \<Rightarrow> Order" where
  "finish_status ord =
     (if quantity ord \<le> filled_quantity ord then ord\<lparr>status := FILLED\<rparr>
      else if 0 < filled_quantity ord then ord\<lparr>status := PARTIAL\<rparr>
      else ord)"

definition match_order :: "Exchange \<Rightarrow> nat \<Rightarrow> int \<Rightarrow> pyerr + Exchange" where
  "match_order s a now =
     (case map_of (order_books s) (ticker (objs s a)) of
        None \<Rightarrow> Inr s
      | Some book \<Rightarrow>
          (case match_loop s a now of
             Inl e \<Rightarrow> Inl e
           | Inr s' \<Rightarrow> Inr (s'\<lparr>objs := upd_obj a finish_status (objs s')\<rparr>)))"

definition execute_market_order :: "Exchange \<Rightarrow> nat \<Rightarrow> int \<Rightarrow> pyerr + Exchange" where
  "execute_market_order s a now =
     (case get_market_price s (ticker (objs s a)) (side (objs s a)) of
        Inl e \<Rightarrow> Inl e
      | Inr (v, s1) \<Rightarrow>
          (case match_order (s1\<lparr>objs := upd_obj a (\<lambda>ord. ord\<lparr>price := v\<rparr>) (objs s1)\<rparr>) a now of
             Inl e \<Rightarrow> Inl e
           | Inr s3 \<Rightarrow>
               Inr (if status (objs s3 a) = PENDING
                    then s3\<lparr>objs := upd_obj a (\<lambda>ord. ord\<lparr>status := CANCELLED\<rparr>) (objs s3)\<rparr>
                    else s3)))"

text \<open>
  The checks of \<open>submit_order\<close>: the result is whether the order is admitted.
  \<open>order.price or self._get_market_price(...)\<close> asks for the market price only when the
  order's price is \<open>None\<close> or zero.
\<close>

definition admission :: "Exchange \<Rightarrow> Order \<Rightarrow> Agent \<Rightarrow> pyerr + (bool \<times> Exchange)" where
  "admission s ord agent =
     (if side ord = BUY then
        (case (if truthy (price ord) then Inr (price ord, s)
               else get_market_price s (upper (ticker ord)) BUY) of
           Inl e \<Rightarrow> Inl e
         | Inr (v, s1) \<Rightarrow>
             (case v of
                None \<Rightarrow> Inl TypeError
              | Some p \<Rightarrow> Inr (\<not> balance agent < quantity ord * p, s1)))
      else Inr (\<not> pget (portfolio agent) (upper (ticker ord)) < quantity ord, s))"

text \<open>
  \<open>submit_order\<close>: the result is the address of the order (\<open>None\<close> when the order is
  rejected) and the new state.
\<close>

definition submit_order :: "Exchange \<Rightarrow> Order \<Rightarrow> int \<Rightarrow> pyerr + (nat option \<times> Exchange)" where
  "submit_order s ord now =
     (case map_of (agents s) (agent_id ord) of
        None \<Rightarrow> Inr (None, s)
      | Some agent \<Rightarrow>
          if map_of (companies s) (upper (ticker ord)) = None then Inr (None, s)
          else
            (case admission s ord agent of
               Inl e \<Rightarrow> Inl e
             | Inr (ok, s1) \<Rightarrow>
                 if \<not> ok then Inr (None, s1)
                 else
                   (let a = next_ref s1;
                        s2 = s1\<lparr>objs := (objs s1)(a := ord), next_ref := Suc a,
                                orders := AList.update (o_id ord) a (orders s1)\<rparr>
                    in if order_type ord = MARKET then
                         (case execute_market_order s2 a now of
                            Inl e \<Rightarrow> Inl e
                          | Inr s3 \<Rightarrow> Inr (Some a, s3))
                       else
                         (case match_order s2 a now of
                            Inl e \<Rightarrow> Inl e
                          | Inr s3 \<Rightarrow>
                              if status (objs s3 a) = PENDING then
                                (case map_of (order_books s3) (upper (ticker ord)) of
                                   None \<Rightarrow> Inl KeyError
                                 | Some book \<Rightarrow>
                                     (case add_order (objs s3) book a of
                                        Inl e \<Rightarrow> Inl e
                                      | Inr book' \<Rightarrow>
                                          Inr (Some a, set_book (upper (ticker ord)) book' s3)))
                              else Inr (Some a, s3)))))"

section \<open>Double-precision arithmetic\<close>

text \<open>
  A Python \<open>float\<close> is an IEEE 754 binary64 number: a significand of 53 bits, the least
  exponent of a normal number -1022, results rounded to the nearest representable number,
  ties to the one with an even significand.  \<open>fl x\<close> is the double that an arithmetic
  operation with the exact result \<open>x\<close> stores: \<open>ilog2\<close> is the exponent of \<open>x\<close>, \<open>u\<close> the distance
  between neighbouring doubles there.  Overflow to infinity (results of magnitude
  \<open>2 ^ 1024\<close>) is not modelled.
\<close>

function bits :: "int \<Rightarrow> int" where
  "bits n = (if n \<le> 0 then 0 else 1 + bits (n div 2))"
  by pat_completeness auto
termination
  by (relation "measure nat") auto

declare bits.simps [simp del]

definition ilog2 :: "rat \<Rightarrow> int" where
  "ilog2 a = (if 1 \<le> a then bits \<lfloor>a\<rfloor> - 1 else - bits (\<lceil>1 / a\<rceil> - 1))"

definition pow2 :: "int \<Rightarrow> rat" where
  "pow2 z = (if 0 \<le> z then 2 ^ nat z else 1 / 2 ^ nat (- z))"

definition round_even :: "rat \<Rightarrow> int" where
  "round_even m =
     (let f = \<lfloor>m\<rfloor>; d = m - of_int f
      in if d < 1 / 2 then f else if 1 / 2 < d then f + 1 else if even f then f else f + 1)"

definition fl :: "rat \<Rightarrow> rat" where
  "fl x =
     (if x = 0 then 0
      else (let u = pow2 (max (ilog2 \<bar>x\<bar>) (- 1022) - 52) in of_int (round_even (x / u)) * u))"

text \<open>
  \<open>whole x\<close>: a whole number of magnitude below \<open>2 ^ 53\<close>.  Every such number is a double, and
  an operation whose exact result is one stores it unchanged.
\<close>

definition whole :: "rat \<Rightarrow> bool" where
  "whole x = (of_int \<lfloor>x\<rfloor> = x \<and> \<bar>x\<bar> < 2 ^ 53)"

lemma round_even_of_int: "round_even (of_int m) = m"
  by (simp add: round_even_def)

lemma round_even_nonneg: "0 \<le> m \<Longrightarrow> 0 \<le> round_even m"
  by (auto simp: round_even_def Let_def)

lemma pow2_pos: "0 < pow2 z"
  by (simp add: pow2_def)

lemma fl_nonneg: "0 \<le> x \<Longrightarrow> 0 \<le> fl x"
  by (auto simp: fl_def Let_def intro!: mult_nonneg_nonneg round_even_nonneg divide_nonneg_pos
           pow2_pos less_imp_le[OF pow2_pos])

lemma bits_pos: "0 < n \<Longrightarrow> 1 \<le> bits n"
proof (induction n rule: bits.induct)
  case (1 n)
  have "0 \<le> bits (n div 2)"
  proof (cases "0 < n div 2")
    case True
    with "1.IH" "1.prems" show ?thesis by simp
  next
    case False
    then show ?thesis by (subst bits.simps) simp
  qed
  with "1.prems" show ?case by (subst bits.simps) simp
qed

lemma bits_bound: "n < 2 ^ k \<Longrightarrow> bits n \<le> int k"
proof (induction k arbitrary: n)
  case 0
  then have "n \<le> 0" by simp
  then show ?case by (subst bits.simps) simp
next
  case (Suc k)
  show ?case
  proof (cases "n \<le> 0")
    case True
    then show ?thesis by (subst bits.simps) simp
  next
    case False
    from Suc.prems have "n div 2 < 2 ^ k" by simp
    from Suc.IH[OF this] False show ?thesis by (subst bits.simps) simp
  qed
qed

lemma fl_whole:
  assumes "\<bar>n\<bar> < 2 ^ 53"
  shows "fl (of_int n) = of_int n"
proof (cases "n = 0")
  case True
  then show ?thesis by (simp add: fl_def)
next
  case False
  let ?e = "bits \<bar>n\<bar> - 1"
  have pos: "0 < \<bar>n\<bar>" using False by simp
  have e0: "0 \<le> ?e" using bits_pos[OF pos] by simp
  have e52: "?e \<le> 52" using bits_bound[OF assms] by simp
  have "1 \<le> \<bar>n\<bar>" using False by simp
  then have "(of_int 1 :: rat) \<le> of_int \<bar>n\<bar>" by (simp only: of_int_le_iff)
  then have one: "(1::rat) \<le> \<bar>of_int n\<bar>" by simp
  have il: "ilog2 \<bar>of_int n\<bar> = ?e"
    using one by (simp add: ilog2_def flip: of_int_abs)
  define k where "k = nat (52 - ?e)"
  have u: "pow2 (max ?e (- 1022) - 52) = 1 / 2 ^ k"
  proof (cases "?e = 52")
    case True
    then show ?thesis by (simp add: pow2_def k_def)
  next
    case False
    with e0 e52 have "max ?e (- 1022) - 52 < 0" "- (max ?e (- 1022) - 52) = 52 - ?e" by auto
    then show ?thesis by (simp add: pow2_def k_def)
  qed
  have q: "of_int n / (1 / 2 ^ k) = (of_int (n * 2 ^ k) :: rat)" by simp
  have "fl (of_int n) = of_int (round_even (of_int (n * 2 ^ k))) * (1 / 2 ^ k)"
    using False unfolding fl_def Let_def il u q by simp
  also have "\<dots> = of_int n" unfolding round_even_of_int by simp
  finally show ?thesis .
qed

lemma fl_exact:
  assumes "whole x"
  shows "fl x = x"
proof -
  from assms have x: "of_int \<lfloor>x\<rfloor> = x" and b: "\<bar>x\<bar> < 2 ^ 53" by (simp_all add: whole_def)
  have "(of_int \<bar>\<lfloor>x\<rfloor>\<bar> :: rat) = \<bar>x\<bar>" by (subst of_int_abs) (simp only: x)
  with b have "(of_int \<bar>\<lfloor>x\<rfloor>\<bar> :: rat) < of_int (2 ^ 53)" by simp
  then have "\<bar>\<lfloor>x\<rfloor>\<bar> < 2 ^ 53" by (simp only: of_int_less_iff)
  from fl_whole[OF this] x show ?thesis by simp
qed

section \<open>AIVerse (src/core/world.py)\<close>

text \<open>
  The world owns the exchange and the log of service uses.  The event log plays no part
  in \<open>use_service\<close> and is left out.  The messages of \<open>use_service\<close> are a datatype, one
  constructor for each string of the source.  The two float operations of \<open>use_service\<close>,
  \<open>agent.balance -= cost\<close> and \<open>company.revenue += cost\<close>, store the rounded results.
\<close>

record ServiceUsage =
  su_timestamp :: int
  su_agent_id :: string
  company_ticker :: string
  cost :: rat
  success :: bool

record AIVerse =
  exchange :: Exchange
  tick_count :: nat
  service_usage :: "ServiceUsage list"
  daily_income :: rat
  dividend_rate :: rat

datatype service_msg =
  AgentNotFound | CompanyNotFound | CompanyBankrupt | InsufficientBalance | ServiceUsed rat

definition use_service :: "AIVerse \<Rightarrow> string \<Rightarrow> string \<Rightarrow> int \<Rightarrow> (bool \<times> service_msg) \<times> AIVerse" where
  "use_service w aid tkr now =
     (case map_of (agents (exchange w)) aid of
        None \<Rightarrow> ((False, AgentNotFound), w)
      | Some agent \<Rightarrow>
          (case map_of (companies (exchange w)) (upper tkr) of
             None \<Rightarrow> ((False, CompanyNotFound), w)
           | Some company \<Rightarrow>
               if c_status company = BANKRUPT then ((False, CompanyBankrupt), w)
               else if balance agent < service_cost company then ((False, InsufficientBalance), w)
               else
                 ((True, ServiceUsed (service_cost company)),
                  w\<lparr>exchange := (exchange w)
                       \<lparr>agents := upd_agent aid
                                    (\<lambda>a. a\<lparr>balance := fl (balance a - service_cost company)\<rparr>)
                                    (agents (exchange w)),
                        companies := AList.update (upper tkr)
                                       (company\<lparr>revenue := fl (revenue company + service_cost company),
                                                total_api_calls := total_api_calls company + 1\<rparr>)
                                       (companies (exchange w))\<rparr>,
                    service_usage := service_usage w @
                      [\<lparr>su_timestamp = now, su_agent_id = aid, company_ticker = upper tkr,
                        cost = service_cost company, success = True\<rparr>]\<rparr>)))"

section \<open>The scenarios of the specification\<close>

text \<open>
  \<open>Order(...)\<close> with the defaults of the dataclass: status PENDING, nothing filled.
\<close>

definition new_order ::
  "string \<Rightarrow> string \<Rightarrow> string \<Rightarrow> OrderSide \<Rightarrow> OrderType \<Rightarrow> rat \<Rightarrow> rat option \<Rightarrow> int \<Rightarrow> Order" where
  "new_order oid aid tkr sd ty q p t =
     \<lparr>o_id = oid, agent_id = aid, ticker = tkr, side = sd, order_type = ty, quantity = q,
      price = p, status = PENDING, filled_quantity = 0, filled_price = 0, created_at = t,
      filled_at = None\<rparr>"

definition new_agent :: "string \<Rightarrow> rat \<Rightarrow> (string \<times> rat) list \<Rightarrow> Agent" where
  "new_agent aid b pf = \<lparr>a_id = aid, a_name = aid, balance = b, total_trades = 0, portfolio = pf\<rparr>"

text \<open>
  The seed of scenarios E1 to E3: agents A, B and C with 10,000 each, and the company XYZ
  with 1000 shares, 600 held by B and 400 by C; an empty book.
\<close>

definition xyz :: Company where
  "xyz = \<lparr>c_id = ''xyz'', c_ticker = ''XYZ'', c_name = ''XYZ'', description = [],
          founder_id = ''B'', c_status = PUBLIC, total_shares = 1000, public_shares = 0,
          share_price = 1, market_cap = 0, total_api_calls = 0, revenue = 0,
          service_type = ''generic'', service_cost = 1\<rparr>"

definition seeded :: Exchange where
  "seeded =
     \<lparr>agents = [(''A'', new_agent ''A'' 10000 []),
                (''B'', new_agent ''B'' 10000 [(''XYZ'', 600)]),
                (''C'', new_agent ''C'' 10000 [(''XYZ'', 400)])],
      companies = [(''XYZ'', xyz)],
      order_books = [(''XYZ'', \<lparr>ob_ticker = ''XYZ'', bids = [], asks = []\<rparr>)],
      trades = [], orders = [], price_history = [],
      objs = (\<lambda>r. new_order [] [] [] BUY LIMIT 0 None 0), next_ref = 0\<rparr>"

definition and_then ::
  "pyerr + ('a \<times> Exchange) \<Rightarrow> (Exchange \<Rightarrow> pyerr + ('b \<times> Exchange)) \<Rightarrow> pyerr + ('b \<times> Exchange)" where
  "and_then r f = (case r of Inl e \<Rightarrow> Inl e | Inr (x, s) \<Rightarrow> f s)"


text \<open>E2: B posts SELL LIMIT 50 @ 10, then A posts BUY LIMIT 100 @ 10.\<close>

definition e2_run :: "pyerr + (nat option \<times> Exchange)" where
  "e2_run =
     and_then (submit_order seeded (new_order ''o1'' ''B'' ''XYZ'' SELL LIMIT 50 (Some 10) 1) 1)
       (\<lambda>s. submit_order s (new_order ''o2'' ''A'' ''XYZ'' BUY LIMIT 100 (Some 10) 2) 2)"


text \<open>E3: B posts SELL LIMIT 10 @ 6, then C posts SELL LIMIT 10 @ 5.\<close>

definition e3_book :: "pyerr + (nat option \<times> Exchange)" where
  "e3_book =
     and_then (submit_order seeded (new_order ''o1'' ''B'' ''XYZ'' SELL LIMIT 10 (Some 6) 1) 1)
       (\<lambda>s. submit_order s (new_order ''o2'' ''C'' ''XYZ'' SELL LIMIT 10 (Some 5) 2) 2)"

definition e3_run :: "pyerr + (nat option \<times> Exchange)" where
  "e3_run =
     and_then e3_book
       (\<lambda>s. submit_order s (new_order ''o3'' ''A'' ''XYZ'' BUY LIMIT 20 (Some 7) 3) 3)"

text \<open>The same book, taken by a MARKET BUY of 20.\<close>

definition market_run :: "pyerr + (nat option \<times> Exchange)" where
  "market_run =
     and_then e3_book
       (\<lambda>s. submit_order s (new_order ''o3'' ''A'' ''XYZ'' BUY MARKET 20 None 3) 3)"



text \<open>
  A bids 10 @ 7 at time 1, then A and C each bid 10 @ 5 at time 2; B then sells 10 @ 7,
  which fills the first bid.  All four calls return.
\<close>

definition tied_bids_run :: "pyerr + (nat option \<times> Exchange)" where
  "tied_bids_run =
     and_then
       (and_then
          (and_then (submit_order seeded (new_order ''o1'' ''A'' ''XYZ'' BUY LIMIT 10 (Some 7) 1) 1)
             (\<lambda>s. submit_order s (new_order ''o2'' ''A'' ''XYZ'' BUY LIMIT 10 (Some 5) 2) 2))
          (\<lambda>s. submit_order s (new_order ''o3'' ''C'' ''XYZ'' BUY LIMIT 10 (Some 5) 2) 3))
       (\<lambda>s. submit_order s (new_order ''o4'' ''B'' ''XYZ'' SELL LIMIT 10 (Some 7) 4) 4)"

section \<open>Claims settled on the scenarios\<close>



text \<open>
  Claim C3, as stated, fails: after E2 the bid side of the book is empty and \<open>best_bid\<close>
  returns no order.
\<close>

theorem e2_remainder_does_not_rest:
  "case e2_run of
     Inl e \<Rightarrow> False
   | Inr (r, s) \<Rightarrow>
       (case map_of (order_books s) ''XYZ'' of
          None \<Rightarrow> False
        | Some book \<Rightarrow> best_bid (objs s) book = Inr (None, book))"
  by code_simp

text \<open>
  Claim C3, amended: in scenario E2 exactly one trade of quantity 50 at price 10 occurs,
  the order of A has status PARTIAL with \<open>filled_quantity = 50\<close>, the balance of A is 9500,
  and the remaining 50 are not put on the book: the bid heap is empty and \<open>best_bid\<close>
  returns no order.
\<close>

theorem e2_partial_fill:
  "case e2_run of
     Inl e \<Rightarrow> False
   | Inr (r, s) \<Rightarrow>
       r = Some 1 \<and>
       trades s = [\<lparr>t_ticker = ''XYZ'', buyer_id = ''A'', seller_id = ''B'', t_quantity = 50,
                    t_price = 10, t_timestamp = 2, buyer_order_id = ''o2'',
                    seller_order_id = ''o1''\<rparr>] \<and>
       status (objs s 1) = PARTIAL \<and> filled_quantity (objs s 1) = 50 \<and>
       quantity (objs s 1) = 100 \<and>
       map_option balance (map_of (agents s) ''A'') = Some 9500 \<and>
       (case map_of (order_books s) ''XYZ'' of
          None \<Rightarrow> False
        | Some book \<Rightarrow> bids book = [] \<and> best_bid (objs s) book = Inr (None, book))"
  by code_simp


text \<open>
  Claim C5, as stated, fails: in \<open>market_run\<close> the MARKET BUY of 20 trades 10 @ 5 and stops,
  although the ask of 10 @ 6 is still on the book and is what \<open>best_ask\<close> returns; the
  order ends PARTIAL with 10 filled.
\<close>

theorem market_buy_does_not_walk_the_book:
  "case market_run of
     Inl e \<Rightarrow> False
   | Inr (r, s) \<Rightarrow>
       r = Some 2 \<and> order_type (objs s 2) = MARKET \<and>
       map (\<lambda>t. (t_quantity t, t_price t)) (trades s) = [(10, 5)] \<and>
       status (objs s 2) = PARTIAL \<and> filled_quantity (objs s 2) = 10 \<and>
       quantity (objs s 2) = 20 \<and>
       (case map_of (order_books s) ''XYZ'' of
          None \<Rightarrow> False
        | Some book \<Rightarrow> best_ask (objs s) book = Inr (Some 0, book)) \<and>
       price (objs s 0) = Some 6 \<and> status (objs s 0) = PENDING"
  by code_simp

text \<open>
  Claim C6: \<open>submit_order\<close> raises \<open>KeyError\<close> on a MARKET order whose ticker is written
  in lower case (the admission looks the company up under the upper-case ticker,
  \<open>_execute_market_order\<close> under the ticker as written).
\<close>

theorem market_order_lowercase_ticker_raises:
  "case submit_order seeded (new_order ''o1'' ''A'' ''xyz'' BUY MARKET 10 None 1) 1 of
     Inl e \<Rightarrow> e = KeyError
   | Inr x \<Rightarrow> False"
  by code_simp

text \<open>
  The second input of claim C6: two SELL orders with equal price and equal \<open>created_at\<close>.
  The insertion of the second compares the two \<open>Order\<close> objects and raises \<open>TypeError\<close>.
\<close>

lemma equal_key_insertion_raises:
  "case and_then (submit_order seeded (new_order ''o1'' ''B'' ''XYZ'' SELL LIMIT 10 (Some 6) 1) 1)
          (\<lambda>s. submit_order s (new_order ''o2'' ''C'' ''XYZ'' SELL LIMIT 10 (Some 6) 1) 2) of
     Inl e \<Rightarrow> e = TypeError
   | Inr x \<Rightarrow> False"
  by code_simp

text \<open>
  Claim C9: \<open>best_bid\<close> does not return on every book.  After the four calls of
  \<open>tied_bids_run\<close>, all of which return, the bid side holds the filled bid at 7 above the
  two PENDING bids at 5 with equal timestamps.  The lookup pops the filled head, and
  \<open>heappop\<close> then compares the two remaining entries, which differ only in their \<open>Order\<close>
  objects: \<open>TypeError\<close>, where the claim promises the best PENDING bid.
\<close>

theorem lookup_raises_on_tied_entries:
  "case tied_bids_run of
     Inl e \<Rightarrow> False
   | Inr (r, s) \<Rightarrow>
       r = Some 3 \<and>
       (case map_of (order_books s) ''XYZ'' of
          None \<Rightarrow> False
        | Some book \<Rightarrow>
            bids book = [(Some (- 7), 1, 0), (Some (- 5), 2, 1), (Some (- 5), 2, 2)] \<and>
            status (objs s 0) = FILLED \<and> status (objs s 1) = PENDING \<and>
            status (objs s 2) = PENDING \<and>
            (case best_bid (objs s) book of Inl e \<Rightarrow> e = TypeError | Inr x \<Rightarrow> False))"
  by code_simp

text \<open>
  Claim C7: with the company XYZ in place, \<open>create_company\<close> for the ticker \<open>xyz\<close> does not
  fail.  It charges the founder A 10,000, replaces the company and the book of XYZ and
  sets A's holding of XYZ to 1,000,000, while B and C keep theirs.
\<close>

theorem create_company_other_case_succeeds:
  "map_of (companies seeded) (upper ''xyz'') = Some xyz \<and>
   (case create_company seeded ''A'' ''xyz'' ''Dup'' [] ''generic'' 1 of
      (r, s) \<Rightarrow>
        map_option founder_id r = Some ''A'' \<and>
        map_option balance (map_of (agents s) ''A'') = Some 0 \<and>
        map_option founder_id (map_of (companies s) ''XYZ'') = Some ''A'' \<and>
        map (\<lambda>(k, a). (k, portfolio a)) (agents s) =
          [(''A'', [(''XYZ'', 1000000)]), (''B'', [(''XYZ'', 600)]), (''C'', [(''XYZ'', 400)])])"
  by code_simp

text \<open>
  Claim C8 (scenario E3): with the resting SELL LIMIT orders of B, 10 @ 6 at time 1, and of
  C, 10 @ 5 at time 2, the BUY LIMIT 20 @ 7 of A produces exactly two trades, in this
  order: 10 @ 5 against C, then 10 @ 6 against B.  Each price is the price of the resting
  order, not the 7 of the taker, and each quantity is the minimum of what remains of the
  two orders (20 and 10, then 10 and 10).
\<close>

theorem e3_price_time_priority:
  "case e3_run of
     Inl e \<Rightarrow> False
   | Inr (r, s) \<Rightarrow>
       r = Some 2 \<and>
       trades s =
         [\<lparr>t_ticker = ''XYZ'', buyer_id = ''A'', seller_id = ''C'', t_quantity = 10,
           t_price = 5, t_timestamp = 3, buyer_order_id = ''o3'', seller_order_id = ''o2''\<rparr>,
          \<lparr>t_ticker = ''XYZ'', buyer_id = ''A'', seller_id = ''B'', t_quantity = 10,
           t_price = 6, t_timestamp = 3, buyer_order_id = ''o3'', seller_order_id = ''o1''\<rparr>] \<and>
       status (objs s 2) = FILLED \<and> filled_quantity (objs s 2) = 20 \<and>
       status (objs s 0) = FILLED \<and> status (objs s 1) = FILLED"
  by code_simp

section \<open>Claims settled by proof\<close>

subsection \<open>Dictionary lemmas\<close>

lemma map_of_upd_agent:
  "map_of (upd_agent k f ags) k' = (if k' = k then map_option f (map_of ags k) else map_of ags k')"
  by (auto simp: upd_agent_def update_conv' split: option.splits)


subsection \<open>Settlement: shares and balances\<close>







lemma pget_update: "pget (AList.update t v p) t' = (if t' = t then v else pget p t')"
  by (simp add: pget_def update_conv')






















lemma set_update_subset: "set (AList.update k v al) \<subseteq> insert (k, v) (set al)"
  by (induction al) auto










subsection \<open>use_service\<close>

text \<open>
  A world whose agent W has the balance \<open>2 ^ 54\<close>, a double, and whose company XYZ charges 1.
\<close>

definition rich_world :: AIVerse where
  "rich_world =
     \<lparr>exchange = seeded\<lparr>agents := [(''W'', new_agent ''W'' (2 ^ 54) [])]\<rparr>,
      tick_count = 0, service_usage = [], daily_income = 1000, dividend_rate = fl (1 / 10)\<rparr>"

text \<open>
  Claim C10, as stated, fails: the call succeeds and credits 1 to the revenue of XYZ, but
  the balance of W is \<open>2 ^ 54\<close> as before, because the double nearest to \<open>2 ^ 54 - 1\<close> is
  \<open>2 ^ 54\<close>: nothing is debited.
\<close>

theorem use_service_debit_is_rounded:
  "fst (use_service rich_world ''W'' ''XYZ'' 7) = (True, ServiceUsed 1) \<and>
   map_option balance (map_of (agents (exchange rich_world)) ''W'') = Some (2 ^ 54) \<and>
   map_option balance
     (map_of (agents (exchange (snd (use_service rich_world ''W'' ''XYZ'' 7)))) ''W'') = Some (2 ^ 54) \<and>
   map_option revenue
     (map_of (companies (exchange (snd (use_service rich_world ''W'' ''XYZ'' 7)))) ''XYZ'') = Some 1"
  by code_simp

text \<open>
  Claim C10, amended: \<open>use_service\<close> succeeds exactly when the agent and the company exist,
  the company is not BANKRUPT and the agent's balance covers \<open>service_cost\<close>.  When it fails
  the world is unchanged.  When it succeeds the agent's balance becomes the double nearest
  to the balance less \<open>service_cost\<close> and the company's \<open>revenue\<close> the double nearest to the
  revenue plus \<open>service_cost\<close>, which is exactly \<open>service_cost\<close> less and more whenever the exact
  result is a whole number below \<open>2 ^ 53\<close>; \<open>total_api_calls\<close> grows by one, one
  \<open>ServiceUsage\<close> record is appended, and no other agent or company changes.
\<close>

theorem use_service_atomic:
  assumes "use_service w aid tkr now = ((ok, msg), w')"
  shows "(ok \<longleftrightarrow>
           (\<exists>agent company.
              map_of (agents (exchange w)) aid = Some agent \<and>
              map_of (companies (exchange w)) (upper tkr) = Some company \<and>
              c_status company \<noteq> BANKRUPT \<and> service_cost company \<le> balance agent)) \<and>
         (\<not> ok \<longrightarrow> w' = w) \<and>
         (ok \<longrightarrow>
           (\<exists>agent company.
              map_of (agents (exchange w)) aid = Some agent \<and>
              map_of (companies (exchange w)) (upper tkr) = Some company \<and>
              map_of (agents (exchange w')) aid =
                Some (agent\<lparr>balance := fl (balance agent - service_cost company)\<rparr>) \<and>
              (whole (balance agent - service_cost company) \<longrightarrow>
                 fl (balance agent - service_cost company) = balance agent - service_cost company) \<and>
              (\<forall>k. k \<noteq> aid \<longrightarrow> map_of (agents (exchange w')) k = map_of (agents (exchange w)) k) \<and>
              map_of (companies (exchange w')) (upper tkr) =
                Some (company\<lparr>revenue := fl (revenue company + service_cost company),
                              total_api_calls := total_api_calls company + 1\<rparr>) \<and>
              (whole (revenue company + service_cost company) \<longrightarrow>
                 fl (revenue company + service_cost company) = revenue company + service_cost company) \<and>
              (\<forall>k. k \<noteq> upper tkr \<longrightarrow>
                 map_of (companies (exchange w')) k = map_of (companies (exchange w)) k) \<and>
              service_usage w' = service_usage w @
                [\<lparr>su_timestamp = now, su_agent_id = aid, company_ticker = upper tkr,
                  cost = service_cost company, success = True\<rparr>] \<and>
              msg = ServiceUsed (service_cost company)))"
proof (cases "map_of (agents (exchange w)) aid")
  case None
  with assms show ?thesis by (simp add: use_service_def)
next
  case (Some agent)
  show ?thesis
  proof (cases "map_of (companies (exchange w)) (upper tkr)")
    case None
    with Some assms show ?thesis by (simp add: use_service_def)
  next
    case c: (Some company)
    show ?thesis
    proof (cases "c_status company = BANKRUPT \<or> balance agent < service_cost company")
      case True
      with Some c assms show ?thesis by (auto simp: use_service_def split: if_splits)
    next
      case False
      with Some c assms have ok: "ok" and msg: "msg = ServiceUsed (service_cost company)"
        and w': "w' = w\<lparr>exchange := (exchange w)
                       \<lparr>agents := upd_agent aid
                                    (\<lambda>a. a\<lparr>balance := fl (balance a - service_cost company)\<rparr>)
                                    (agents (exchange w)),
                        companies := AList.update (upper tkr)
                                       (company\<lparr>revenue := fl (revenue company + service_cost company),
                                                total_api_calls := total_api_calls company + 1\<rparr>)
                                       (companies (exchange w))\<rparr>,
                    service_usage := service_usage w @
                      [\<lparr>su_timestamp = now, su_agent_id = aid, company_ticker = upper tkr,
                        cost = service_cost company, success = True\<rparr>]\<rparr>"
        by (auto simp: use_service_def)
      show ?thesis
        using ok msg Some c False unfolding w'
        by (simp add: map_of_upd_agent update_conv' fl_exact)
    qed
  qed
qed

definition seeded_world :: AIVerse where
  "seeded_world = \<lparr>exchange = seeded, tick_count = 0, service_usage = [], daily_income = 1000,
                    dividend_rate = fl (1 / 10)\<rparr>"

lemma upper_xyz: "upper ''xyz'' = ''XYZ''" by code_simp

text \<open>
  The theorem at a successful call (agent A, ticker \<open>xyz\<close>), where the amounts are whole and
  the debit is exact, and at a failing one (the unknown agent Z).
\<close>

theorem use_service_atomic_witness:
  "fst (use_service seeded_world ''A'' ''xyz'' 7) = (True, ServiceUsed 1) \<and>
   map_option balance (map_of (agents (exchange (snd (use_service seeded_world ''A'' ''xyz'' 7)))) ''A'')
     = Some 9999 \<and>
   map_option revenue (map_of (companies (exchange (snd (use_service seeded_world ''A'' ''xyz'' 7)))) ''XYZ'')
     = Some 1 \<and>
   length (service_usage (snd (use_service seeded_world ''A'' ''xyz'' 7))) = 1 \<and>
   fst (use_service seeded_world ''Z'' ''xyz'' 7) = (False, AgentNotFound) \<and>
   snd (use_service seeded_world ''Z'' ''xyz'' 7) = seeded_world"
proof -
  define wa where "wa = snd (use_service seeded_world ''A'' ''xyz'' 7)"
  define wz where "wz = snd (use_service seeded_world ''Z'' ''xyz'' 7)"
  have fa: "fst (use_service seeded_world ''A'' ''xyz'' 7) = (True, ServiceUsed 1)" by code_simp
  have fz: "fst (use_service seeded_world ''Z'' ''xyz'' 7) = (False, AgentNotFound)" by code_simp
  have a: "use_service seeded_world ''A'' ''xyz'' 7 = ((True, ServiceUsed 1), wa)"
    using fa by (simp add: wa_def prod_eq_iff)
  have z: "use_service seeded_world ''Z'' ''xyz'' 7 = ((False, AgentNotFound), wz)"
    using fz by (simp add: wz_def prod_eq_iff)
  have ag: "map_of (agents (exchange seeded_world)) ''A'' = Some (new_agent ''A'' 10000 [])"
    by (simp add: seeded_world_def seeded_def)
  have co: "map_of (companies (exchange seeded_world)) (upper ''xyz'') = Some xyz"
    by (simp add: seeded_world_def seeded_def upper_xyz)
  have su: "service_usage seeded_world = []" by (simp add: seeded_world_def)
  have wh: "whole (10000 - 1)" "whole (0 + 1)" by (simp_all add: whole_def)
  from use_service_atomic[OF a] ag co su wh
  have "map_option balance (map_of (agents (exchange wa)) ''A'') = Some 9999"
    and "map_option revenue (map_of (companies (exchange wa)) ''XYZ'') = Some 1"
    and "length (service_usage wa) = 1"
    by (auto simp: new_agent_def xyz_def upper_xyz)
  moreover from use_service_atomic[OF z] have "wz = seeded_world" by simp
  ultimately show ?thesis using fa fz by (simp add: wa_def wz_def)
qed

subsection \<open>Best-of-side lookup\<close>

text \<open>
  The order of the heap entries: the key first (\<open>None\<close> before every price), then the
  timestamp.  Whenever the comparison of two entries returns, it is the strict part of
  this order.  \<open>is_heap\<close> is the invariant of \<open>heapq\<close>: no entry is before its parent.
\<close>

definition okey :: "rat option \<Rightarrow> nat \<times> rat" where
  "okey k = (case k of None \<Rightarrow> (0, 0) | Some p \<Rightarrow> (1, p))"

definition ekey :: "entry \<Rightarrow> (nat \<times> rat) \<times> int" where
  "ekey e = (okey (fst e), fst (snd e))"

definition is_heap :: "entry list \<Rightarrow> bool" where
  "is_heap h = (\<forall>i. 0 < i \<and> i < length h \<longrightarrow> ekey (h ! ((i - 1) div 2)) \<le> ekey (h ! i))"

lemma entry_lt_ekey: "entry_lt st x y = Inr b \<Longrightarrow> b = (ekey x < ekey y)"
  by (cases x; cases y)
     (auto simp: entry_lt_def ekey_def okey_def less_prod_def split: if_splits option.splits)

lemma heap_root_min:
  assumes "is_heap h" "i < length h"
  shows "ekey (h ! 0) \<le> ekey (h ! i)"
  using assms(2)
proof (induction i rule: less_induct)
  case (less i)
  show ?case
  proof (cases "i = 0")
    case True then show ?thesis by simp
  next
    case False
    then have p: "(i - 1) div 2 < i" by simp
    with less.prems have "(i - 1) div 2 < length h" by simp
    from less.IH[OF p this] have "ekey (h ! 0) \<le> ekey (h ! ((i - 1) div 2))" .
    moreover have "ekey (h ! ((i - 1) div 2)) \<le> ekey (h ! i)"
      using assms(1) False less.prems by (simp add: is_heap_def)
    ultimately show ?thesis by (rule order_trans)
  qed
qed

text \<open>
  While an item is sifted, one position of the list is a hole.  \<open>edges_off\<close>: the heap
  property between all positions other than the hole; \<open>grand\<close>: the children of the hole are
  not before its parent; \<open>below\<close>: the item being sifted is not after the children of the hole.
\<close>

definition edges_off :: "entry list \<Rightarrow> nat \<Rightarrow> bool" where
  "edges_off h pos =
     (\<forall>i. 0 < i \<and> i < length h \<and> i \<noteq> pos \<and> (i - 1) div 2 \<noteq> pos \<longrightarrow>
          ekey (h ! ((i - 1) div 2)) \<le> ekey (h ! i))"

definition grand :: "entry list \<Rightarrow> nat \<Rightarrow> bool" where
  "grand h pos =
     (0 < pos \<longrightarrow> (\<forall>i. 0 < i \<and> i < length h \<and> (i - 1) div 2 = pos \<longrightarrow>
          ekey (h ! ((pos - 1) div 2)) \<le> ekey (h ! i)))"

definition below :: "entry list \<Rightarrow> nat \<Rightarrow> entry \<Rightarrow> bool" where
  "below h pos x =
     (\<forall>i. 0 < i \<and> i < length h \<and> (i - 1) div 2 = pos \<longrightarrow> ekey x \<le> ekey (h ! i))"

lemma siftdown_heap:
  "siftdown st h 0 pos x = Inr h' \<Longrightarrow> pos < length h \<Longrightarrow>
     edges_off h pos \<Longrightarrow> grand h pos \<Longrightarrow> below h pos x \<Longrightarrow> is_heap h'"
proof (induction st h "0::nat" pos x arbitrary: h' rule: siftdown.induct)
  case (1 st heap pos newitem)
  let ?pp = "(pos - 1) div 2"
  show ?case
  proof (cases "0 < pos")
    case False
    then have p0: "pos = 0" by simp
    from "1.prems"(1) p0 have h': "h' = heap[0 := newitem]"
      by (subst (asm) siftdown.simps) simp
    show ?thesis
      unfolding is_heap_def h'
    proof (intro allI impI)
      fix i assume i: "0 < i \<and> i < length (heap[0 := newitem])"
      show "ekey (heap[0 := newitem] ! ((i - 1) div 2)) \<le> ekey (heap[0 := newitem] ! i)"
      proof (cases "(i - 1) div 2 = 0")
        case True
        then show ?thesis using i "1.prems"(5) p0 "1.prems"(2) by (auto simp: below_def)
      next
        case False
        then show ?thesis using i "1.prems"(3) p0 by (auto simp: edges_off_def)
      qed
    qed
  next
    case True
    then have pp: "?pp < pos" by simp
    from True "1.prems"(1) obtain b where lt: "entry_lt st newitem (heap ! ?pp) = Inr b"
      by (subst (asm) siftdown.simps) (auto split: sum.splits)
    from entry_lt_ekey[OF lt] have b: "b = (ekey newitem < ekey (heap ! ?pp))" .
    show ?thesis
    proof (cases b)
      case False
      with True lt "1.prems"(1) have h': "h' = heap[pos := newitem]"
        by (subst (asm) siftdown.simps) simp
      from False b have le: "ekey (heap ! ?pp) \<le> ekey newitem" by simp
      show ?thesis
        unfolding is_heap_def h'
      proof (intro allI impI)
        fix i assume i: "0 < i \<and> i < length (heap[pos := newitem])"
        show "ekey (heap[pos := newitem] ! ((i - 1) div 2)) \<le> ekey (heap[pos := newitem] ! i)"
        proof (cases "i = pos")
          case True
          then show ?thesis using le pp "1.prems"(2) by simp
        next
          case ip: False
          show ?thesis
          proof (cases "(i - 1) div 2 = pos")
            case True
            then show ?thesis using i ip "1.prems"(5) "1.prems"(2) by (auto simp: below_def)
          next
            case False
            then show ?thesis using i ip "1.prems"(3) by (auto simp: edges_off_def)
          qed
        qed
      qed
    next
      case bt: True
      with True lt "1.prems"(1)
      have rec: "siftdown st (heap[pos := heap ! ?pp]) 0 ?pp newitem = Inr h'"
        by (subst (asm) siftdown.simps) simp
      from bt b have xlt: "ekey newitem < ekey (heap ! ?pp)" by simp
      let ?h = "heap[pos := heap ! ?pp]"
      have len: "?pp < length ?h" using pp "1.prems"(2) by simp
      have eo: "edges_off ?h ?pp"
        unfolding edges_off_def
      proof (intro allI impI)
        fix i assume i: "0 < i \<and> i < length ?h \<and> i \<noteq> ?pp \<and> (i - 1) div 2 \<noteq> ?pp"
        then have ip: "i \<noteq> pos" by auto
        show "ekey (?h ! ((i - 1) div 2)) \<le> ekey (?h ! i)"
        proof (cases "(i - 1) div 2 = pos")
          case True
          then show ?thesis using i ip "1.prems"(4) \<open>0 < pos\<close> "1.prems"(2) by (auto simp: grand_def)
        next
          case False
          then show ?thesis using i ip "1.prems"(3) by (auto simp: edges_off_def)
        qed
      qed
      have bl: "below ?h ?pp newitem"
        unfolding below_def
      proof (intro allI impI)
        fix i assume i: "0 < i \<and> i < length ?h \<and> (i - 1) div 2 = ?pp"
        show "ekey newitem \<le> ekey (?h ! i)"
        proof (cases "i = pos")
          case True
          then show ?thesis using xlt "1.prems"(2) by simp
        next
          case False
          then have "ekey (heap ! ?pp) \<le> ekey (heap ! i)"
            using i pp "1.prems"(3) by (auto simp: edges_off_def)
          then show ?thesis using xlt False by simp
        qed
      qed
      have gr: "grand ?h ?pp"
        unfolding grand_def
      proof (intro allI impI)
        fix i assume p0: "0 < ?pp" and i: "0 < i \<and> i < length ?h \<and> (i - 1) div 2 = ?pp"
        have ppp: "(?pp - 1) div 2 < ?pp" using p0 by simp
        have g: "ekey (heap ! ((?pp - 1) div 2)) \<le> ekey (heap ! ?pp)"
          using "1.prems"(3) p0 pp ppp "1.prems"(2) by (auto simp: edges_off_def)
        have "ekey (heap ! ?pp) \<le> ekey (?h ! i)"
        proof (cases "i = pos")
          case True then show ?thesis using "1.prems"(2) by simp
        next
          case False
          then show ?thesis using i pp "1.prems"(3) by (auto simp: edges_off_def)
        qed
        moreover have "?h ! ((?pp - 1) div 2) = heap ! ((?pp - 1) div 2)" using ppp pp by simp
        ultimately show "ekey (?h ! ((?pp - 1) div 2)) \<le> ekey (?h ! i)" using g by simp
      qed
      from "1.hyps"[OF True lt bt rec len eo gr bl] show ?thesis .
    qed
  qed
qed


lemma bubble_heap:
  "bubble st h pos = Inr (h', leaf) \<Longrightarrow> pos < length h \<Longrightarrow> edges_off h pos \<Longrightarrow> grand h pos \<Longrightarrow>
     edges_off h' leaf \<and> length h \<le> 2 * leaf + 1"
proof (induction st h pos arbitrary: h' leaf rule: bubble.induct)
  case (1 st heap pos)
  show ?case
  proof (cases "2 * pos + 1 < length heap")
    case False
    with "1.prems" show ?thesis by (subst (asm) bubble.simps) auto
  next
    case True
    define c where "c = (if 2 * pos + 2 < length heap \<and>
                            entry_lt st (heap ! (2 * pos + 1)) (heap ! (2 * pos + 2)) = Inr False
                         then 2 * pos + 2 else 2 * pos + 1)"
    have c: "c < length heap" "pos < c" "(c - 1) div 2 = pos" "c = 2 * pos + 1 \<or> c = 2 * pos + 2"
      using True by (auto simp: c_def)
    have r: "bubble st (heap[pos := heap ! c]) c = Inr (h', leaf)"
      using "1.prems"(1) True
      by (subst (asm) bubble.simps) (auto simp: c_def split: if_splits sum.splits)
    have small: "\<And>i. 0 < i \<Longrightarrow> i < length heap \<Longrightarrow> (i - 1) div 2 = pos \<Longrightarrow> ekey (heap ! c) \<le> ekey (heap ! i)"
    proof -
      fix i assume i: "0 < i" "i < length heap" "(i - 1) div 2 = pos"
      then have i12: "i = 2 * pos + 1 \<or> i = 2 * pos + 2" by presburger
      show "ekey (heap ! c) \<le> ekey (heap ! i)"
      proof (cases "i = c")
        case True then show ?thesis by simp
      next
        case False
        then have t2: "2 * pos + 2 < length heap" using i i12 c(1) c(4) by auto
        with "1.prems"(1) True obtain b where
          lt: "entry_lt st (heap ! (2 * pos + 1)) (heap ! (2 * pos + 2)) = Inr b"
          by (subst (asm) bubble.simps) (auto split: sum.splits)
        from entry_lt_ekey[OF lt] have b: "b = (ekey (heap ! (2 * pos + 1)) < ekey (heap ! (2 * pos + 2)))" .
        show ?thesis
        proof (cases b)
          case True
          then have "c = 2 * pos + 1" using lt by (simp add: c_def)
          with False i12 True b show ?thesis by auto
        next
          case bf: False
          then have "c = 2 * pos + 2" using lt t2 by (simp add: c_def)
          with False i12 bf b show ?thesis by auto
        qed
      qed
    qed
    let ?h = "heap[pos := heap ! c]"
    have eo: "edges_off ?h c"
      unfolding edges_off_def
    proof (intro allI impI)
      fix i assume i: "0 < i \<and> i < length ?h \<and> i \<noteq> c \<and> (i - 1) div 2 \<noteq> c"
      show "ekey (?h ! ((i - 1) div 2)) \<le> ekey (?h ! i)"
      proof (cases "i = pos")
        case True
        then have "0 < pos" using i by simp
        then have "ekey (heap ! ((pos - 1) div 2)) \<le> ekey (heap ! c)"
          using "1.prems"(4) c by (auto simp: grand_def)
        moreover have "(pos - 1) div 2 \<noteq> pos" using \<open>0 < pos\<close> by presburger
        ultimately show ?thesis using True "1.prems"(2) by simp
      next
        case ip: False
        show ?thesis
        proof (cases "(i - 1) div 2 = pos")
          case True
          then show ?thesis using small[of i] i ip "1.prems"(2) by simp
        next
          case False
          then show ?thesis using i ip "1.prems"(3) by (auto simp: edges_off_def)
        qed
      qed
    qed
    have gr: "grand ?h c"
      unfolding grand_def
    proof (intro allI impI)
      fix i assume i: "0 < i \<and> i < length ?h \<and> (i - 1) div 2 = c"
      then have ne: "i \<noteq> pos" "i \<noteq> c" using c(2) by presburger+
      have "ekey (heap ! c) \<le> ekey (heap ! i)"
        using "1.prems"(3) i ne c(2) by (auto simp: edges_off_def)
      then show "ekey (?h ! ((c - 1) div 2)) \<le> ekey (?h ! i)"
        using c(3) ne "1.prems"(2) by simp
    qed
    have len: "c < length ?h" using c by simp
    have ih: "edges_off h' leaf \<and> length ?h \<le> 2 * leaf + 1"
    proof (cases "2 * pos + 2 < length heap")
      case False
      then have ceq: "c = 2 * pos + 1" by (simp add: c_def)
      show ?thesis using "1.IH"(3)[OF True False r[unfolded ceq] len[unfolded ceq] eo[unfolded ceq] gr[unfolded ceq]] by (simp add: ceq)
    next
      case t2: True
      with "1.prems"(1) True obtain b where
        lt: "entry_lt st (heap ! (2 * pos + 1)) (heap ! (2 * pos + 2)) = Inr b"
        by (subst (asm) bubble.simps) (auto split: sum.splits)
      show ?thesis
      proof (cases b)
        case bt: True
        then have ceq: "c = 2 * pos + 1" using lt by (simp add: c_def)
        show ?thesis using "1.IH"(1)[OF True t2 lt bt r[unfolded ceq] len[unfolded ceq] eo[unfolded ceq] gr[unfolded ceq]] by (simp add: ceq)
      next
        case bf: False
        then have ceq: "c = 2 * pos + 2" using lt t2 by (simp add: c_def)
        show ?thesis using "1.IH"(2)[OF True t2 lt bf r[unfolded ceq] len[unfolded ceq] eo[unfolded ceq] gr[unfolded ceq]] by (simp add: ceq)
      qed
    qed
    then show ?thesis by simp
  qed
qed

lemma edges_off_update: "edges_off h pos \<Longrightarrow> edges_off (h[pos := x]) pos"
  by (auto simp: edges_off_def)

lemma is_heap_edges_off: "is_heap h \<Longrightarrow> edges_off h pos"
  by (simp add: is_heap_def edges_off_def)

lemma siftup_heap:
  assumes "siftup st h 0 = Inr h'" "h \<noteq> []" "edges_off h 0"
  shows "is_heap h'"
proof -
  from assms(1) obtain hb leaf where b: "bubble st h 0 = Inr (hb, leaf)"
    and sd: "siftdown st (hb[leaf := h ! 0]) 0 leaf (h ! 0) = Inr h'"
    by (auto simp: siftup_def split: sum.splits)
  have l0: "0 < length h" using assms(2) by simp
  from bubble_props[OF b l0, of "h ! 0"] have p: "leaf < length h" "length hb = length h" by simp_all
  from bubble_heap[OF b l0 assms(3)] have eo: "edges_off hb leaf" and lf: "length h \<le> 2 * leaf + 1"
    by (simp_all add: grand_def)
  have "below (hb[leaf := h ! 0]) leaf (h ! 0)"
    using lf p by (auto simp: below_def)
  moreover have "grand (hb[leaf := h ! 0]) leaf"
    using lf p by (auto simp: grand_def)
  ultimately show ?thesis
    using siftdown_heap[OF sd] p edges_off_update[OF eo] by simp
qed

lemma is_heap_butlast: "is_heap h \<Longrightarrow> is_heap (butlast h)"
  by (auto simp: is_heap_def nth_butlast)

lemma heappop_heap:
  assumes "heappop st h = Inr (e, h')" "is_heap h"
  shows "is_heap h'"
proof (cases "butlast h = []")
  case True
  with assms(1) have "h' = []" by (auto simp: heappop_def split: if_splits)
  then show ?thesis by (simp add: is_heap_def)
next
  case False
  with assms(1) have su: "siftup st ((butlast h)[0 := last h]) 0 = Inr h'"
    by (auto simp: heappop_def split: if_splits sum.splits)
  have "edges_off (butlast h) 0" using is_heap_butlast[OF assms(2)] by (rule is_heap_edges_off)
  then have "edges_off ((butlast h)[0 := last h]) 0" by (rule edges_off_update)
  with siftup_heap[OF su] False show ?thesis by simp
qed

lemma heappush_heap:
  assumes "heappush st h x = Inr h'" "is_heap h"
  shows "is_heap h'"
proof -
  from assms(1) have sd: "siftdown st (h @ [x]) 0 (length h) x = Inr h'" by (simp add: heappush_def)
  have "edges_off (h @ [x]) (length h)"
    using assms(2) by (auto simp: edges_off_def is_heap_def nth_append)
  moreover have "grand (h @ [x]) (length h)" by (auto simp: grand_def)
  moreover have "below (h @ [x]) (length h) x" by (auto simp: below_def)
  ultimately show ?thesis using siftdown_heap[OF sd] by simp
qed


lemma is_heap_code [code]:
  "is_heap h = list_all (\<lambda>i. ekey (h ! ((i - 1) div 2)) \<le> ekey (h ! i)) [1..<length h]"
  by (auto simp: is_heap_def list_all_iff)

lemma ekey_le_Some:
  "ekey (Some a, t, r) \<le> ekey (Some b, t', r') \<longleftrightarrow> a < b \<or> (a = b \<and> t \<le> t')"
  by (auto simp: ekey_def okey_def less_eq_prod_def)

lemma best_loop_heap:
  "best_loop st h = Inr (r, h') \<Longrightarrow> is_heap h \<Longrightarrow> is_heap h'"
proof (induction st h arbitrary: r h' rule: best_loop.induct)
  case (1 st heap)
  show ?case
  proof (cases "heap = [] \<or> status (st (snd (snd (hd heap)))) = PENDING")
    case True
    with "1.prems" show ?thesis by (subst (asm) best_loop.simps) (auto split: if_splits)
  next
    case False
    with "1.prems"(1) obtain x hp where pop: "heappop st heap = Inr (x, hp)"
      and rec: "best_loop st hp = Inr (r, h')"
      by (subst (asm) best_loop.simps) (auto split: sum.splits)
    from False have ne: "heap \<noteq> []" and np: "status (st (snd (snd (hd heap)))) \<noteq> PENDING" by simp_all
    from "1.IH"[OF ne np pop refl rec heappop_heap[OF pop "1.prems"(2)]] show ?thesis .
  qed
qed

text \<open>
  What a lookup on one side does, from the heap \<open>h\<close> to the result \<open>r\<close> and the heap \<open>h'\<close>:
  the entries removed are not pending, so the multiset of pending entries is unchanged;
  the heap property is kept; the result is \<open>None\<close> only when no entry is pending, and
  otherwise a PENDING order whose entry is first, in the order of the heap, among the
  pending entries of \<open>h\<close>.
\<close>

definition lookup_ok :: "(nat \<Rightarrow> Order) \<Rightarrow> entry list \<Rightarrow> nat option \<Rightarrow> entry list \<Rightarrow> bool" where
  "lookup_ok st h r h' =
     ((\<exists>rm. mset h = mset h' + rm \<and> (\<forall>e. e \<in># rm \<longrightarrow> \<not> pending st e)) \<and>
      filter_mset (pending st) (mset h') = filter_mset (pending st) (mset h) \<and>
      is_heap h' \<and>
      (case r of
         None \<Rightarrow> (\<forall>e \<in> set h. \<not> pending st e)
       | Some c \<Rightarrow>
           status (st c) = PENDING \<and>
           (\<exists>e \<in> set h. snd (snd e) = c \<and> (\<forall>e' \<in> set h. pending st e' \<longrightarrow> ekey e \<le> ekey e'))))"

lemma best_loop_lookup_ok:
  assumes hp: "is_heap h" and bl: "best_loop st h = Inr (r, h')"
  shows "lookup_ok st h r h'"
proof -
  from best_loop_props[OF bl] obtain rm where
    fm: "filter_mset (pending st) (mset h') = filter_mset (pending st) (mset h)"
    and rm: "mset h = mset h' + rm" "\<forall>e. e \<in># rm \<longrightarrow> \<not> pending st e"
    and rc: "(case r of None \<Rightarrow> h' = []
              | Some c \<Rightarrow> h' \<noteq> [] \<and> c = snd (snd (hd h')) \<and> status (st c) = PENDING)"
    by blast
  have hp': "is_heap h'" using best_loop_heap[OF bl hp] .
  have sub: "set h' \<subseteq> set h" using rm(1) by (metis mset_subset_eq_add_left set_mset_mono set_mset_mset)
  have pend: "\<And>e. e \<in> set h \<Longrightarrow> pending st e \<Longrightarrow> e \<in> set h'"
  proof -
    fix e assume "e \<in> set h" "pending st e"
    then have "e \<in># filter_mset (pending st) (mset h)" by simp
    then have "e \<in># filter_mset (pending st) (mset h')" using fm by simp
    then show "e \<in> set h'" by simp
  qed
  have last: "(case r of
         None \<Rightarrow> (\<forall>e \<in> set h. \<not> pending st e)
       | Some c \<Rightarrow>
           status (st c) = PENDING \<and>
           (\<exists>e \<in> set h. snd (snd e) = c \<and> (\<forall>e' \<in> set h. pending st e' \<longrightarrow> ekey e \<le> ekey e')))"
  proof (cases r)
    case None
    with rc have "h' = []" by simp
    with pend show ?thesis using None by auto
  next
    case (Some c)
    with rc have ne: "h' \<noteq> []" and c: "c = snd (snd (hd h'))" and pc: "status (st c) = PENDING"
      by auto
    have hd: "hd h' \<in> set h" using ne sub by auto
    have "\<forall>e' \<in> set h. pending st e' \<longrightarrow> ekey (hd h') \<le> ekey e'"
    proof (intro ballI impI)
      fix e' assume "e' \<in> set h" "pending st e'"
      then have "e' \<in> set h'" by (rule pend)
      then obtain i where "i < length h'" "h' ! i = e'" by (auto simp: in_set_conv_nth)
      with heap_root_min[OF hp', of i] ne show "ekey (hd h') \<le> ekey e'" by (simp add: hd_conv_nth)
    qed
    with hd c pc Some show ?thesis by auto
  qed
  show ?thesis unfolding lookup_ok_def using fm rm hp' last by blast
qed

text \<open>
  What a lookup that returns does: on a book whose sides are heaps, a call of \<open>best_bid\<close>
  or \<open>best_ask\<close> that returns gives the highest-priority PENDING entry of its side, or none when the side has
  no PENDING entry; it never gives an order whose status is not PENDING; it removes only
  entries whose order is not PENDING, so the multiset of PENDING entries is the same after
  the call; and it leaves the side a heap and the other side untouched, so the same holds
  after any number of lookups.  The key of a bid is minus its price and the key of an ask
  its price (\<open>add_order\<close>), so by \<open>ekey_le_Some\<close> the first entry is the one with the best
  price and, among equal prices, the earliest timestamp.
\<close>

theorem best_of_side_lookup:
  "(is_heap (bids book) \<and> best_bid st book = Inr (r, book') \<longrightarrow>
      lookup_ok st (bids book) r (bids book') \<and> asks book' = asks book) \<and>
   (is_heap (asks book) \<and> best_ask st book = Inr (r, book') \<longrightarrow>
      lookup_ok st (asks book) r (asks book') \<and> bids book' = bids book)"
proof (rule conjI; rule impI)
  assume a: "is_heap (bids book) \<and> best_bid st book = Inr (r, book')"
  then obtain h' where bl: "best_loop st (bids book) = Inr (r, h')" and b': "book' = book\<lparr>bids := h'\<rparr>"
    by (auto simp: best_bid_def split: sum.splits)
  have "lookup_ok st (bids book) r h'" using best_loop_lookup_ok[OF _ bl] a by simp
  then show "lookup_ok st (bids book) r (bids book') \<and> asks book' = asks book" using b' by simp
next
  assume a: "is_heap (asks book) \<and> best_ask st book = Inr (r, book')"
  then obtain h' where bl: "best_loop st (asks book) = Inr (r, h')" and b': "book' = book\<lparr>asks := h'\<rparr>"
    by (auto simp: best_ask_def split: sum.splits)
  have "lookup_ok st (asks book) r h'" using best_loop_lookup_ok[OF _ bl] a by simp
  then show "lookup_ok st (asks book) r (asks book') \<and> bids book' = bids book" using b' by simp
qed

text \<open>
  The theorem on a book with three bids, the first of them FILLED, and one ask: the
  lookup pops the filled bid and returns the bid of 10 at time 3 before the bid of 9.
\<close>

definition lookup_store :: "nat \<Rightarrow> Order" where
  "lookup_store =
     (\<lambda>r. new_order [] [] [] BUY LIMIT 0 None 0)
       (0 := (new_order ''b0'' ''A'' ''XYZ'' BUY LIMIT 5 (Some 10) 1)\<lparr>status := FILLED, filled_quantity := 5\<rparr>,
        1 := new_order ''b1'' ''A'' ''XYZ'' BUY LIMIT 5 (Some 9) 2,
        2 := new_order ''b2'' ''C'' ''XYZ'' BUY LIMIT 5 (Some 10) 3,
        3 := new_order ''a0'' ''B'' ''XYZ'' SELL LIMIT 5 (Some 12) 4)"

definition lookup_book :: OrderBook where
  "lookup_book =
     \<lparr>ob_ticker = ''XYZ'',
      bids = [(Some (- 10), 1, 0), (Some (- 9), 2, 1), (Some (- 10), 3, 2)],
      asks = [(Some 12, 4, 3)]\<rparr>"

theorem best_of_side_lookup_witness:
  "is_heap (bids lookup_book) \<and> is_heap (asks lookup_book) \<and>
   best_bid lookup_store lookup_book =
     Inr (Some 2, lookup_book\<lparr>bids := [(Some (- 10), 3, 2), (Some (- 9), 2, 1)]\<rparr>) \<and>
   lookup_ok lookup_store (bids lookup_book) (Some 2) [(Some (- 10), 3, 2), (Some (- 9), 2, 1)] \<and>
   best_ask lookup_store lookup_book = Inr (Some 3, lookup_book) \<and>
   lookup_ok lookup_store (asks lookup_book) (Some 3) (asks lookup_book)"
proof -
  have hb: "is_heap (bids lookup_book)" and ha: "is_heap (asks lookup_book)" by code_simp+
  have bb: "best_bid lookup_store lookup_book =
     Inr (Some 2, lookup_book\<lparr>bids := [(Some (- 10), 3, 2), (Some (- 9), 2, 1)]\<rparr>)"
    by code_simp
  have ba: "best_ask lookup_store lookup_book = Inr (Some 3, lookup_book)" by code_simp
  from best_of_side_lookup[of lookup_book lookup_store "Some 2"
      "lookup_book\<lparr>bids := [(Some (- 10), 3, 2), (Some (- 9), 2, 1)]\<rparr>"] hb bb
  have 1: "lookup_ok lookup_store (bids lookup_book) (Some 2) [(Some (- 10), 3, 2), (Some (- 9), 2, 1)]"
    by simp
  from best_of_side_lookup[of lookup_book lookup_store "Some 3" lookup_book] ha ba
  have 2: "lookup_ok lookup_store (asks lookup_book) (Some 3) (asks lookup_book)" by simp
  from hb ha bb ba 1 2 show ?thesis by simp
qed


subsection \<open>The matching loop\<close>

text \<open>
  The induction rule of the loop: a property kept by every turn holds when the loop
  returns, and the loop returns either with the order filled or from a \<open>break\<close>.
\<close>

lemma match_loop_rule:
  assumes "match_loop s a now = Inr s'"
    and "P s"
    and "\<And>s1 go s2. P s1 \<Longrightarrow> filled_quantity (objs s1 a) < quantity (objs s1 a) \<Longrightarrow>
           match_step s1 a now = Inr (go, s2) \<Longrightarrow> P s2"
  shows "P s' \<and>
         (quantity (objs s' a) \<le> filled_quantity (objs s' a) \<or>
          (\<exists>s1. P s1 \<and> filled_quantity (objs s1 a) < quantity (objs s1 a) \<and>
                match_step s1 a now = Inr (False, s')))"
  using assms
proof (induction s a now rule: match_loop.induct)
  case (1 s a now)
  note loop = "1.prems"(1) and ps = "1.prems"(2) and step = "1.prems"(3)
  show ?case
  proof (cases "filled_quantity (objs s a) < quantity (objs s a)")
    case False
    with loop have "s' = s" by (subst (asm) match_loop.simps) simp
    with False ps show ?thesis by simp
  next
    case True
    with loop obtain go s2 where st: "match_step s a now = Inr (go, s2)"
      by (subst (asm) match_loop.simps) (auto split: sum.splits)
    have p2: "P s2" using step[OF ps True st] .
    show ?thesis
    proof (cases go)
      case False
      with True st loop have eq: "s' = s2" by (subst (asm) match_loop.simps) simp
      have "P s \<and> filled_quantity (objs s a) < quantity (objs s a) \<and> match_step s a now = Inr (False, s')"
        using ps True st False eq by simp
      then show ?thesis using p2 eq by blast
    next
      case gt: True
      with True st loop have l2: "match_loop s2 a now = Inr s'"
        by (subst (asm) match_loop.simps) simp
      show ?thesis by (rule "1.IH"[OF True st refl gt l2 p2 step])
    qed
  qed
qed

text \<open>
  The four ways through one turn: no book, no counter order, a counter order beyond the
  limit, a trade.  \<open>popped s a h'\<close> is the state after the lookup has left \<open>h'\<close> on the
  opposite side of the book.
\<close>

definition trade_qty :: "Exchange \<Rightarrow> nat \<Rightarrow> nat \<Rightarrow> rat" where
  "trade_qty s a c =
     min (quantity (objs s a) - filled_quantity (objs s a))
         (quantity (objs s c) - filled_quantity (objs s c))"

definition popped :: "Exchange \<Rightarrow> nat \<Rightarrow> entry list \<Rightarrow> Exchange" where
  "popped s a h' =
     (case map_of (order_books s) (ticker (objs s a)) of
        None \<Rightarrow> s
      | Some book \<Rightarrow>
          set_book (ticker (objs s a))
            (if side (objs s a) = BUY then book\<lparr>asks := h'\<rparr> else book\<lparr>bids := h'\<rparr>) s)"

lemma match_step_elim:
  assumes "match_step s a now = Inr (go, s')"
  obtains
    (nobook) "map_of (order_books s) (ticker (objs s a)) = None" "\<not> go" "s' = s"
  | (none) book h' where "map_of (order_books s) (ticker (objs s a)) = Some book"
      "best_loop (objs s) (opp_heap s a) = Inr (None, h')" "\<not> go" "s' = popped s a h'"
  | (stop) book h' c where "map_of (order_books s) (ticker (objs s a)) = Some book"
      "best_loop (objs s) (opp_heap s a) = Inr (Some c, h')"
      "beyond_limit (objs s a) (objs s c) = Inr True" "\<not> go" "s' = popped s a h'"
  | (trade) book h' c where "map_of (order_books s) (ticker (objs s a)) = Some book"
      "best_loop (objs s) (opp_heap s a) = Inr (Some c, h')"
      "beyond_limit (objs s a) (objs s c) = Inr False" "go"
      "execute_trade (popped s a h') a c (trade_qty s a c) (price (objs s c)) now = Inr s'"
proof (cases "map_of (order_books s) (ticker (objs s a))")
  case None
  with assms have "\<not> go" "s' = s" by (simp_all add: match_step_def)
  with None show ?thesis by (rule nobook)
next
  case (Some book)
  let ?h = "if side (objs s a) = BUY then asks book else bids book"
  have oh: "opp_heap s a = ?h" using Some by (simp add: opp_heap_def)
  from assms Some obtain r book' where
    best: "(if side (objs s a) = BUY then best_ask (objs s) book else best_bid (objs s) book) = Inr (r, book')"
    by (auto simp: match_step_def split: sum.splits)
  from best_side_props[OF best] obtain h' where
    bl0: "best_loop (objs s) ?h = Inr (r, h')" by blast
  then have bl: "best_loop (objs s) (opp_heap s a) = Inr (r, h')" using oh by simp
  have b': "book' = (if side (objs s a) = BUY then book\<lparr>asks := h'\<rparr> else book\<lparr>bids := h'\<rparr>)"
    using best bl0 by (auto simp: best_ask_def best_bid_def split: if_splits)
  have pp: "set_book (ticker (objs s a)) book' s = popped s a h'"
    using Some b' by (simp add: popped_def)
  show ?thesis
  proof (cases r)
    case None
    with assms Some best have "\<not> go" "s' = set_book (ticker (objs s a)) book' s"
      by (simp_all add: match_step_def)
    then have "\<not> go" "s' = popped s a h'" using pp by simp_all
    with Some bl[unfolded None] show ?thesis by (rule none)
  next
    case c: (Some c)
    from assms Some best c obtain stp where
      bey: "beyond_limit (objs s a) (objs s c) = Inr stp"
      by (auto simp: match_step_def split: sum.splits)
    show ?thesis
    proof (cases stp)
      case True
      with assms Some best c bey have "\<not> go" "s' = set_book (ticker (objs s a)) book' s"
        by (simp_all add: match_step_def)
      then have ng: "\<not> go" and sp: "s' = popped s a h'" using pp by simp_all
      have bt: "beyond_limit (objs s a) (objs s c) = Inr True" using bey True by simp
      from Some bl[unfolded c] bt ng sp show ?thesis by (rule stop)
    next
      case False
      with assms Some best c bey
      have "go" "execute_trade (set_book (ticker (objs s a)) book' s) a c (trade_qty s a c)
                   (price (objs s c)) now = Inr s'"
        by (auto simp: match_step_def trade_qty_def split: sum.splits)
      then have g: "go"
        and ex: "execute_trade (popped s a h') a c (trade_qty s a c) (price (objs s c)) now = Inr s'"
        using pp by simp_all
      have bf: "beyond_limit (objs s a) (objs s c) = Inr False" using bey False by simp
      from Some bl[unfolded c] bf g ex show ?thesis by (rule trade)
    qed
  qed
qed

lemma popped_frame [simp]:
  "objs (popped s a h') = objs s" "next_ref (popped s a h') = next_ref s"
  "orders (popped s a h') = orders s" "agents (popped s a h') = agents s"
  "companies (popped s a h') = companies s" "trades (popped s a h') = trades s"
  by (simp_all add: popped_def set_book_def split: option.splits)

lemma opp_heap_popped:
  "map_of (order_books s) (ticker (objs s a)) = Some book \<Longrightarrow> opp_heap (popped s a h') a = h'"
  by (simp add: popped_def opp_heap_def set_book_def update_conv')

lemma execute_trade_frame:
  assumes "execute_trade s a c q prc now = Inr s'"
  shows "order_books s' = order_books s" "next_ref s' = next_ref s" "orders s' = orders s"
  using assms by (auto simp: execute_trade_def Let_def split: option.splits)

lemma execute_trade_static:
  assumes "execute_trade s a c q prc now = Inr s'"
  shows "quantity (objs s' x) = quantity (objs s x)" "side (objs s' x) = side (objs s x)"
    "ticker (objs s' x) = ticker (objs s x)" "order_type (objs s' x) = order_type (objs s x)"
    "price (objs s' x) = price (objs s x)"
  using execute_trade_objs[OF assms] by (auto simp: update_orders_static)

lemma beyond_limit_True:
  "beyond_limit ord counter = Inr True \<longleftrightarrow>
     (\<exists>p cp. price ord = Some p \<and> p \<noteq> 0 \<and> price counter = Some cp \<and>
             (if side ord = BUY then p < cp else cp < p))"
  by (auto simp: beyond_limit_def split: option.splits)

text \<open>
  \<open>limit_reached\<close>: the head of the opposite side is a PENDING order, the price of the order
  is set and not zero, and the price of the head is beyond it (above it for BUY, below it
  for SELL).
\<close>

definition limit_reached :: "Exchange \<Rightarrow> nat \<Rightarrow> bool" where
  "limit_reached s a =
     (case opp_heap s a of
        [] \<Rightarrow> False
      | e # es \<Rightarrow>
          status (objs s (snd (snd e))) = PENDING \<and>
          (case price (objs s a) of
             None \<Rightarrow> False
           | Some p \<Rightarrow>
               p \<noteq> 0 \<and>
               (case price (objs s (snd (snd e))) of
                  None \<Rightarrow> False
                | Some cp \<Rightarrow> if side (objs s a) = BUY then p < cp else cp < p)))"

lemma match_loop_invariant:
  assumes "match_loop s a now = Inr s'" and "P s"
    and "\<And>s1 go s2. P s1 \<Longrightarrow> filled_quantity (objs s1 a) < quantity (objs s1 a) \<Longrightarrow>
           match_step s1 a now = Inr (go, s2) \<Longrightarrow> P s2"
  shows "P s'"
proof -
  have "P s' \<and>
         (quantity (objs s' a) \<le> filled_quantity (objs s' a) \<or>
          (\<exists>s1. P s1 \<and> filled_quantity (objs s1 a) < quantity (objs s1 a) \<and>
                match_step s1 a now = Inr (False, s')))"
    by (rule match_loop_rule[OF assms(1), of P, OF assms(2)]) (rule assms(3))
  then show ?thesis ..
qed

lemma match_loop_exit:
  assumes "match_loop s a now = Inr s'"
  shows "quantity (objs s' a) \<le> filled_quantity (objs s' a) \<or>
         (\<exists>s1. match_step s1 a now = Inr (False, s'))"
proof -
  have "True \<and>
         (quantity (objs s' a) \<le> filled_quantity (objs s' a) \<or>
          (\<exists>s1. True \<and> filled_quantity (objs s1 a) < quantity (objs s1 a) \<and>
                match_step s1 a now = Inr (False, s')))"
    by (rule match_loop_rule[OF assms, of "\<lambda>s. True"]) simp_all
  then show ?thesis by blast
qed

lemma match_step_price:
  assumes "match_step s a now = Inr (go, s')"
  shows "price (objs s' x) = price (objs s x)"
  using assms
proof (cases rule: match_step_elim)
  case nobook then show ?thesis by simp
next
  case none then show ?thesis by simp
next
  case stop then show ?thesis by simp
next
  case trade
  from execute_trade_static(5)[OF trade(5)] show ?thesis by simp
qed

lemma match_loop_price:
  assumes "match_loop s a now = Inr s'"
  shows "price (objs s' a) = price (objs s a)"
proof (rule match_loop_invariant[OF assms, of "\<lambda>s1. price (objs s1 a) = price (objs s a)"])
  show "price (objs s a) = price (objs s a)" by simp
next
  fix s1 go s2
  assume "price (objs s1 a) = price (objs s a)" "match_step s1 a now = Inr (go, s2)"
  then show "price (objs s2 a) = price (objs s a)" using match_step_price by simp
qed

lemma match_order_price:
  assumes "match_order s a now = Inr s'"
  shows "price (objs s' a) = price (objs s a)"
proof (cases "map_of (order_books s) (ticker (objs s a))")
  case None
  with assms show ?thesis by (simp add: match_order_def)
next
  case (Some book)
  with assms obtain s1 where l: "match_loop s a now = Inr s1"
    and s': "s' = s1\<lparr>objs := upd_obj a finish_status (objs s1)\<rparr>"
    by (auto simp: match_order_def split: sum.splits)
  have "price (finish_status (objs s1 a)) = price (objs s1 a)" by (simp add: finish_status_def)
  then show ?thesis using match_loop_price[OF l] s' by (simp add: upd_obj_apply)
qed

lemma break_exit:
  assumes "match_step s1 a now = Inr (False, s')"
  shows "opp_heap s' a = [] \<or> limit_reached s' a"
  using assms
proof (cases rule: match_step_elim)
  case nobook
  then show ?thesis by (simp add: opp_heap_def)
next
  case (none book h')
  from best_loop_props[OF none(2)] have "h' = []" by simp
  with none show ?thesis by (simp add: opp_heap_popped)
next
  case (stop book h' c)
  from best_loop_props[OF stop(2)] have h: "h' \<noteq> []" "c = snd (snd (hd h'))" "status (objs s1 c) = PENDING"
    by auto
  then obtain e es where es: "h' = e # es" by (cases h') auto
  have oh: "opp_heap s' a = e # es" using stop(1,5) es by (simp add: opp_heap_popped)
  from stop(3) obtain p cp where "price (objs s1 a) = Some p" "p \<noteq> 0" "price (objs s1 c) = Some cp"
    "if side (objs s1 a) = BUY then p < cp else cp < p"
    unfolding beyond_limit_True by blast
  then have "limit_reached s' a"
    using oh h es stop(5) by (simp add: limit_reached_def)
  then show ?thesis ..
next
  case trade
  then show ?thesis by simp
qed

text \<open>
  The trades of the loop.  \<open>within_limit ord p\<close>: the price \<open>p\<close> is not beyond the price of
  the order, when that is set and not zero (at most it for BUY, at least it for SELL).
  \<open>trades_within s s' ord\<close>: the trades of \<open>s'\<close> are those of \<open>s\<close> followed by trades whose
  prices are all within the limit of \<open>ord\<close>.
\<close>

definition within_limit :: "Order \<Rightarrow> rat \<Rightarrow> bool" where
  "within_limit ord p =
     (case price ord of
        None \<Rightarrow> True
      | Some l \<Rightarrow> l = 0 \<or> (if side ord = BUY then p \<le> l else l \<le> p))"

definition new_trades :: "Exchange \<Rightarrow> Exchange \<Rightarrow> Trade list" where
  "new_trades s s' = drop (length (trades s)) (trades s')"

definition trades_within :: "Exchange \<Rightarrow> Exchange \<Rightarrow> Order \<Rightarrow> bool" where
  "trades_within s s' ord =
     (take (length (trades s)) (trades s') = trades s \<and>
      list_all (\<lambda>t. within_limit ord (t_price t)) (new_trades s s'))"

lemma trades_within_refl: "trades_within s s ord"
  by (simp add: trades_within_def new_trades_def)

lemma trades_within_same:
  "trades_within s s1 ord \<Longrightarrow> trades s2 = trades s1 \<Longrightarrow> trades_within s s2 ord"
  by (simp add: trades_within_def new_trades_def)

lemma trades_within_snoc:
  assumes "trades_within s s1 ord" "trades s2 = trades s1 @ [t]" "within_limit ord (t_price t)"
  shows "trades_within s s2 ord"
proof -
  from assms(1) have tk: "take (length (trades s)) (trades s1) = trades s"
    and la: "list_all (\<lambda>t. within_limit ord (t_price t)) (drop (length (trades s)) (trades s1))"
    by (simp_all add: trades_within_def new_trades_def)
  have "length (take (length (trades s)) (trades s1)) = length (trades s)" using tk by simp
  then have le: "length (trades s) \<le> length (trades s1)" by simp
  then show ?thesis using tk la assms(2,3)
    by (simp add: trades_within_def new_trades_def)
qed

lemma beyond_limit_False:
  assumes "beyond_limit ord counter = Inr False" "price counter = Some cp"
  shows "within_limit ord cp"
  using assms by (auto simp: beyond_limit_def within_limit_def split: option.splits if_splits)

lemma match_step_trades:
  assumes "match_step s1 a now = Inr (go, s2)"
  shows "trades s2 = trades s1 \<or>
         (\<exists>t. trades s2 = trades s1 @ [t] \<and> within_limit (objs s1 a) (t_price t))"
  using assms
proof (cases rule: match_step_elim)
  case (trade book h' c)
  from trade(5) obtain p where p: "price (objs s1 c) = Some p"
    by (auto simp: execute_trade_def Let_def split: option.splits)
  from trade(5) p obtain t where t: "trades s2 = trades s1 @ [t]" "t_price t = p"
    by (auto simp: execute_trade_def Let_def split: option.splits)
  from beyond_limit_False[OF trade(3) p] t show ?thesis by auto
qed simp_all

lemma match_step_side:
  assumes "match_step s a now = Inr (go, s')"
  shows "side (objs s' x) = side (objs s x)"
  using assms
proof (cases rule: match_step_elim)
  case trade
  from execute_trade_static(2)[OF trade(5)] show ?thesis by simp
qed simp_all

lemma match_loop_trades:
  assumes "match_loop s a now = Inr s'"
  shows "trades_within s s' (objs s a)"
proof -
  let ?P = "\<lambda>s1. trades_within s s1 (objs s a) \<and> price (objs s1 a) = price (objs s a) \<and>
                  side (objs s1 a) = side (objs s a)"
  have "?P s'"
  proof (rule match_loop_invariant[OF assms, of ?P])
    show "?P s" by (simp add: trades_within_refl)
  next
    fix s1 go s2
    assume p: "?P s1" and st: "match_step s1 a now = Inr (go, s2)"
    from p have pr: "price (objs s1 a) = price (objs s a)"
      and sd: "side (objs s1 a) = side (objs s a)" by simp_all
    have wl: "\<And>x. within_limit (objs s1 a) x = within_limit (objs s a) x"
      by (simp only: within_limit_def pr sd)
    from match_step_trades[OF st] have "trades_within s s2 (objs s a)"
    proof
      assume "trades s2 = trades s1" with p show ?thesis by (auto intro: trades_within_same)
    next
      assume "\<exists>t. trades s2 = trades s1 @ [t] \<and> within_limit (objs s1 a) (t_price t)"
      then obtain t where "trades s2 = trades s1 @ [t]" "within_limit (objs s a) (t_price t)"
        using wl by auto
      with p show ?thesis by (auto intro: trades_within_snoc)
    qed
    then show "?P s2" using p match_step_price[OF st] match_step_side[OF st] by simp
  qed
  then show ?thesis ..
qed


lemma match_loop_side:
  assumes "match_loop s a now = Inr s'"
  shows "side (objs s' a) = side (objs s a)"
proof (rule match_loop_invariant[OF assms, of "\<lambda>s1. side (objs s1 a) = side (objs s a)"])
  show "side (objs s a) = side (objs s a)" by simp
next
  fix s1 go s2
  assume "side (objs s1 a) = side (objs s a)" "match_step s1 a now = Inr (go, s2)"
  then show "side (objs s2 a) = side (objs s a)" using match_step_side by simp
qed

lemma trades_within_cong:
  assumes "price ord' = price ord" "side ord' = side ord" "trades t = trades s" "trades t' = trades s'"
  shows "trades_within t t' ord' = trades_within s s' ord"
  by (simp only: trades_within_def new_trades_def within_limit_def assms)

lemma get_market_price_trades:
  assumes "get_market_price s tk sd = Inr (v, s1)"
  shows "trades s1 = trades s"
  using assms
  by (auto simp: get_market_price_def set_book_def company_price_def
           split: option.splits sum.splits if_splits)

lemma match_order_trades:
  assumes "match_order s a now = Inr s'"
  shows "trades_within s s' (objs s a)"
proof (cases "map_of (order_books s) (ticker (objs s a))")
  case None
  with assms show ?thesis by (simp add: match_order_def trades_within_refl)
next
  case (Some book)
  with assms obtain s1 where l: "match_loop s a now = Inr s1"
    and s': "s' = s1\<lparr>objs := upd_obj a finish_status (objs s1)\<rparr>"
    by (auto simp: match_order_def split: sum.splits)
  from match_loop_trades[OF l] s' show ?thesis by (auto intro: trades_within_same)
qed

text \<open>
  Claim C5, amended: when the matching loop returns, the order is filled, or the opposite
  side of the book is empty (no counter order exists), or the order's price is set and
  not zero and the price of the best counter order is beyond it, above it for BUY and
  below it for SELL; and every trade the loop has made is at a price within the order's
  price, when that is set and not zero, because a turn that finds the best counter order
  beyond it trades nothing.  The order's type plays no part.  \<open>_execute_market_order\<close>
  sets the price of a MARKET order to the market price, that is the price of the best
  counter order when there is one, before it runs the loop, and the price stays; so every
  trade of a MARKET order whose market price is not zero is within that price: such a
  MARKET BUY does not go on to the dearer asks.
\<close>

theorem matching_loop_stop_condition:
  "(match_loop s a now = Inr s' \<longrightarrow>
      (quantity (objs s' a) \<le> filled_quantity (objs s' a) \<or> opp_heap s' a = [] \<or>
       limit_reached s' a) \<and>
      trades_within s s' (objs s a)) \<and>
   (execute_market_order s a now = Inr s' \<longrightarrow>
      (\<exists>v s1. get_market_price s (ticker (objs s a)) (side (objs s a)) = Inr (v, s1) \<and>
              price (objs s' a) = v \<and> trades_within s s' (objs s' a)))"
proof (rule conjI; rule impI)
  assume loop: "match_loop s a now = Inr s'"
  from match_loop_exit[OF loop]
  have "quantity (objs s' a) \<le> filled_quantity (objs s' a) \<or> opp_heap s' a = [] \<or> limit_reached s' a"
  proof
    assume "quantity (objs s' a) \<le> filled_quantity (objs s' a)" then show ?thesis ..
  next
    assume "\<exists>s1. match_step s1 a now = Inr (False, s')"
    then obtain s1 where "match_step s1 a now = Inr (False, s')" ..
    from break_exit[OF this] show ?thesis by blast
  qed
  with match_loop_trades[OF loop]
  show "(quantity (objs s' a) \<le> filled_quantity (objs s' a) \<or> opp_heap s' a = [] \<or>
         limit_reached s' a) \<and> trades_within s s' (objs s a)" by simp
next
  assume m: "execute_market_order s a now = Inr s'"
  then obtain v s1 where g: "get_market_price s (ticker (objs s a)) (side (objs s a)) = Inr (v, s1)"
    by (auto simp: execute_market_order_def split: sum.splits)
  let ?s2 = "s1\<lparr>objs := upd_obj a (\<lambda>ord. ord\<lparr>price := v\<rparr>) (objs s1)\<rparr>"
  from m g obtain s3 where
    mo: "match_order ?s2 a now = Inr s3"
    and s': "s' = (if status (objs s3 a) = PENDING
                   then s3\<lparr>objs := upd_obj a (\<lambda>ord. ord\<lparr>status := CANCELLED\<rparr>) (objs s3)\<rparr> else s3)"
    by (auto simp: execute_market_order_def split: sum.splits)
  from match_order_price[OF mo] have p3: "price (objs s3 a) = v" by (simp add: upd_obj_apply)
  then have p': "price (objs s' a) = v" unfolding s' by (simp add: upd_obj_apply)
  have sd': "side (objs s' a) = side (objs ?s2 a)"
  proof (cases "map_of (order_books ?s2) (ticker (objs ?s2 a))")
    case None
    with mo have "s3 = ?s2" by (simp add: match_order_def)
    then show ?thesis unfolding s' by (simp add: upd_obj_apply)
  next
    case (Some book)
    with mo obtain s4 where l: "match_loop ?s2 a now = Inr s4"
      and s3: "s3 = s4\<lparr>objs := upd_obj a finish_status (objs s4)\<rparr>"
      by (auto simp: match_order_def split: sum.splits)
    have "side (finish_status (objs s4 a)) = side (objs s4 a)" by (simp add: finish_status_def)
    then show ?thesis using match_loop_side[OF l] s3 unfolding s' by (simp add: upd_obj_apply)
  qed
  have tw: "trades_within ?s2 s3 (objs ?s2 a)" by (rule match_order_trades[OF mo])
  have "trades_within s s' (objs s' a) = trades_within ?s2 s3 (objs ?s2 a)"
  proof (rule trades_within_cong)
    show "price (objs s' a) = price (objs ?s2 a)" using p' by (simp add: upd_obj_apply)
    show "side (objs s' a) = side (objs ?s2 a)" by (rule sd')
    show "trades s = trades ?s2" using get_market_price_trades[OF g] by simp
    show "trades s' = trades s3" unfolding s' by simp
  qed
  with tw have "trades_within s s' (objs s' a)" by simp
  with g p' show "\<exists>v s1. get_market_price s (ticker (objs s a)) (side (objs s a)) = Inr (v, s1) \<and>
              price (objs s' a) = v \<and> trades_within s s' (objs s' a)" by blast
qed

text \<open>
  The theorem on the book of E3 (asks 10 @ 5 and 10 @ 6) and the MARKET BUY of 20:
  \<open>market_state\<close> is the state in which \<open>submit_order\<close> calls \<open>_execute_market_order\<close>,
  \<open>priced_state\<close> the state in which the loop starts.
\<close>

definition market_state :: Exchange where
  "market_state =
     (case e3_book of
        Inl e \<Rightarrow> seeded
      | Inr (r, s) \<Rightarrow>
          s\<lparr>objs := (objs s)(2 := new_order ''o3'' ''A'' ''XYZ'' BUY MARKET 20 None 3),
            next_ref := 3, orders := AList.update ''o3'' 2 (orders s)\<rparr>)"

definition priced_state :: Exchange where
  "priced_state = market_state\<lparr>objs := upd_obj 2 (\<lambda>ord. ord\<lparr>price := Some 5\<rparr>) (objs market_state)\<rparr>"

lemma market_state_returns:
  "(case execute_market_order market_state 2 3 of Inl e \<Rightarrow> False | Inr s' \<Rightarrow> True) \<and>
   (case match_loop priced_state 2 3 of Inl e \<Rightarrow> False | Inr s' \<Rightarrow> True) \<and>
   (case get_market_price market_state (ticker (objs market_state 2)) (side (objs market_state 2)) of
      Inl e \<Rightarrow> False | Inr (v, s1) \<Rightarrow> v = Some 5)"
  by code_simp

theorem matching_loop_stop_condition_witness:
  "(case match_loop priced_state 2 3 of
      Inl e \<Rightarrow> False
    | Inr s' \<Rightarrow>
        (quantity (objs s' 2) \<le> filled_quantity (objs s' 2) \<or> opp_heap s' 2 = [] \<or>
         limit_reached s' 2) \<and>
        trades_within priced_state s' (objs priced_state 2) \<and>
        map t_price (new_trades priced_state s') = [5]) \<and>
   (case execute_market_order market_state 2 3 of
      Inl e \<Rightarrow> False
    | Inr s' \<Rightarrow>
        price (objs s' 2) = Some 5 \<and> trades_within market_state s' (objs s' 2) \<and>
        map t_price (new_trades market_state s') = [5] \<and>
        filled_quantity (objs s' 2) = 10 \<and> limit_reached s' 2)"
proof -
  have ev: "(case match_loop priced_state 2 3 of
      Inl e \<Rightarrow> False
    | Inr s' \<Rightarrow> map t_price (new_trades priced_state s') = [5]) \<and>
   (case execute_market_order market_state 2 3 of
      Inl e \<Rightarrow> False
    | Inr s' \<Rightarrow> map t_price (new_trades market_state s') = [5] \<and>
        filled_quantity (objs s' 2) = 10 \<and> limit_reached s' 2)"
    by code_simp
  then obtain s1 s2 where
    l: "match_loop priced_state 2 3 = Inr s1" and m: "execute_market_order market_state 2 3 = Inr s2"
    by (cases "match_loop priced_state 2 3"; cases "execute_market_order market_state 2 3") auto
  from matching_loop_stop_condition[of priced_state 2 3 s1] l
  have 1: "(quantity (objs s1 2) \<le> filled_quantity (objs s1 2) \<or> opp_heap s1 2 = [] \<or>
            limit_reached s1 2) \<and> trades_within priced_state s1 (objs priced_state 2)"
    by blast
  from matching_loop_stop_condition[of market_state 2 3 s2] m obtain v sa where
    g: "get_market_price market_state (ticker (objs market_state 2)) (side (objs market_state 2)) = Inr (v, sa)"
    and p: "price (objs s2 2) = v" and tw: "trades_within market_state s2 (objs s2 2)" by blast
  from g market_state_returns have "v = Some 5" by simp
  with 1 p tw l m ev show ?thesis by simp
qed

subsection \<open>The status of orders\<close>


definition book_entries :: "Exchange \<Rightarrow> entry set" where
  "book_entries s = (\<Union>(k, b) \<in> set (order_books s). set (bids b) \<union> set (asks b))"


















lemma book_entries_objs [simp]: "book_entries (s\<lparr>objs := f\<rparr>) = book_entries s"
  by (simp add: book_entries_def)















subsection \<open>Books stay heaps\<close>

text \<open>
  The hypothesis of the lookup theorem holds of every book that \<open>submit_order\<close> produces:
  the empty sides of a new book are heaps, and \<open>submit_order\<close> keeps every side of every
  book a heap.
\<close>

definition heaps_ok :: "Exchange \<Rightarrow> bool" where
  "heaps_ok s = (\<forall>(k, b) \<in> set (order_books s). is_heap (bids b) \<and> is_heap (asks b))"

lemma heaps_ok_set_book:
  assumes "heaps_ok s" "is_heap (bids b')" "is_heap (asks b')"
  shows "heaps_ok (set_book k b' s)"
  using assms set_update_subset[of k b' "order_books s"]
  by (auto simp: heaps_ok_def set_book_def)

lemma heaps_ok_book:
  "heaps_ok s \<Longrightarrow> map_of (order_books s) k = Some b \<Longrightarrow> is_heap (bids b) \<and> is_heap (asks b)"
  by (auto simp: heaps_ok_def dest!: map_of_SomeD)

lemma heaps_ok_popped:
  assumes "heaps_ok s" "best_loop (objs s) (opp_heap s a) = Inr (r, h')"
  shows "heaps_ok (popped s a h')"
proof (cases "map_of (order_books s) (ticker (objs s a))")
  case None
  with assms(1) show ?thesis by (simp add: popped_def)
next
  case (Some book)
  from heaps_ok_book[OF assms(1) Some] have hb: "is_heap (bids book)" "is_heap (asks book)" by simp_all
  then have "is_heap (opp_heap s a)" using Some by (simp add: opp_heap_def)
  from best_loop_heap[OF assms(2) this] have "is_heap h'" .
  with hb Some assms(1) show ?thesis by (simp add: popped_def heaps_ok_set_book)
qed

lemma heaps_ok_cong: "order_books s' = order_books s \<Longrightarrow> heaps_ok s' = heaps_ok s"
  by (simp add: heaps_ok_def)

lemma match_step_heaps:
  assumes "match_step s a now = Inr (go, s')" "heaps_ok s"
  shows "heaps_ok s'"
  using assms(1)
proof (cases rule: match_step_elim)
  case nobook
  with assms(2) show ?thesis by simp
next
  case (none book h')
  with heaps_ok_popped[OF assms(2) none(2)] show ?thesis by simp
next
  case (stop book h' c)
  with heaps_ok_popped[OF assms(2) stop(2)] show ?thesis by simp
next
  case (trade book h' c)
  from heaps_ok_cong[OF execute_trade_frame(1)[OF trade(5)]] heaps_ok_popped[OF assms(2) trade(2)]
  show ?thesis by simp
qed

lemma match_loop_heaps:
  assumes "match_loop s a now = Inr s'" "heaps_ok s"
  shows "heaps_ok s'"
proof (rule match_loop_invariant[OF assms(1), of heaps_ok, OF assms(2)])
  fix s1 go s2
  assume "heaps_ok s1" "match_step s1 a now = Inr (go, s2)"
  then show "heaps_ok s2" using match_step_heaps by simp
qed

lemma match_order_heaps:
  assumes "match_order s a now = Inr s'" "heaps_ok s"
  shows "heaps_ok s'"
proof (cases "map_of (order_books s) (ticker (objs s a))")
  case None
  with assms show ?thesis by (simp add: match_order_def)
next
  case (Some book)
  with assms(1) obtain s1 where l: "match_loop s a now = Inr s1"
    and s': "s' = s1\<lparr>objs := upd_obj a finish_status (objs s1)\<rparr>"
    by (auto simp: match_order_def split: sum.splits)
  from match_loop_heaps[OF l assms(2)] s' show ?thesis by (simp add: heaps_ok_def)
qed

lemma get_market_price_heaps:
  assumes "get_market_price s tk sd = Inr (v, s1)" "heaps_ok s"
  shows "heaps_ok s1"
proof (cases "map_of (order_books s) tk")
  case None
  with assms(1) have "s1 = s" by (auto simp: get_market_price_def split: sum.splits)
  with assms(2) show ?thesis by simp
next
  case (Some book)
  with assms(1) obtain r book' where
    best: "(if sd = BUY then best_ask (objs s) book else best_bid (objs s) book) = Inr (r, book')"
    by (auto simp: get_market_price_def split: sum.splits)
  with assms(1) Some have s1: "s1 = set_book tk book' s"
    by (auto simp: get_market_price_def split: sum.splits option.splits)
  from best_side_props[OF best] obtain h' where
    bl: "best_loop (objs s) (if sd = BUY then asks book else bids book) = Inr (r, h')" by blast
  have b': "book' = (if sd = BUY then book\<lparr>asks := h'\<rparr> else book\<lparr>bids := h'\<rparr>)"
    using best bl by (auto simp: best_ask_def best_bid_def split: if_splits)
  from heaps_ok_book[OF assms(2) Some] have hb: "is_heap (bids book)" "is_heap (asks book)" by simp_all
  then have "is_heap (if sd = BUY then asks book else bids book)" by simp
  from best_loop_heap[OF bl this] have "is_heap h'" .
  with hb b' have "is_heap (bids book')" "is_heap (asks book')" by (cases "sd = BUY"; simp)+
  then show ?thesis unfolding s1 using assms(2) by (intro heaps_ok_set_book)
qed

lemma add_order_heaps:
  assumes "add_order st book a = Inr book'" "is_heap (bids book)" "is_heap (asks book)"
  shows "is_heap (bids book') \<and> is_heap (asks book')"
proof (cases "side (st a) = BUY")
  case True
  with assms(1) obtain p h where hp: "heappush st (bids book) (Some (- p), created_at (st a), a) = Inr h"
    and b': "book' = book\<lparr>bids := h\<rparr>"
    by (auto simp: add_order_def split: option.splits sum.splits)
  from heappush_heap[OF hp assms(2)] b' assms(3) show ?thesis by simp
next
  case False
  with assms(1) obtain h where hp: "heappush st (asks book) (price (st a), created_at (st a), a) = Inr h"
    and b': "book' = book\<lparr>asks := h\<rparr>"
    by (auto simp: add_order_def split: sum.splits)
  from heappush_heap[OF hp assms(3)] b' assms(2) show ?thesis by simp
qed

lemma submit_order_keeps_heaps:
  assumes ok: "heaps_ok s" and sub: "submit_order s ord now = Inr (res, s')"
  shows "heaps_ok s'"
proof (cases "map_of (agents s) (agent_id ord)")
  case None
  with sub have "s' = s" by (simp add: submit_order_def)
  with ok show ?thesis by simp
next
  case (Some agent)
  show ?thesis
  proof (cases "map_of (companies s) (upper (ticker ord)) = None")
    case True
    with sub Some have "s' = s" by (simp add: submit_order_def)
    with ok show ?thesis by simp
  next
    case co: False
    with sub Some obtain okk s1 where adm: "admission s ord agent = Inr (okk, s1)"
      by (auto simp: submit_order_def split: sum.splits)
    have ok1: "heaps_ok s1"
    proof (cases "side ord = BUY \<and> \<not> truthy (price ord)")
      case False
      with adm have "s1 = s" by (auto simp: admission_def split: if_splits option.splits)
      with ok show ?thesis by simp
    next
      case True
      with adm obtain v where "get_market_price s (upper (ticker ord)) BUY = Inr (v, s1)"
        by (auto simp: admission_def split: sum.splits option.splits)
      from get_market_price_heaps[OF this ok] show ?thesis .
    qed
    show ?thesis
    proof (cases okk)
      case False
      with sub Some co adm have "s' = s1" by (simp add: submit_order_def)
      with ok1 show ?thesis by simp
    next
      case True
      let ?a = "next_ref s1"
      let ?s2 = "s1\<lparr>objs := (objs s1)(?a := ord), next_ref := Suc ?a,
             orders := AList.update (o_id ord) ?a (orders s1)\<rparr>"
      have ok2: "heaps_ok ?s2" using ok1 by (simp add: heaps_ok_def)
      show ?thesis
      proof (cases "order_type ord = MARKET")
        case mk: True
        with sub Some co adm True have m: "execute_market_order ?s2 ?a now = Inr s'"
          by (auto simp: submit_order_def Let_def split: sum.splits)
        then obtain v sa where g: "get_market_price ?s2 (ticker (objs ?s2 ?a)) (side (objs ?s2 ?a)) = Inr (v, sa)"
          by (auto simp: execute_market_order_def split: sum.splits)
        with m obtain s3 where
          mo: "match_order (sa\<lparr>objs := upd_obj ?a (\<lambda>ord. ord\<lparr>price := v\<rparr>) (objs sa)\<rparr>) ?a now = Inr s3"
          and s': "s' = (if status (objs s3 ?a) = PENDING
                   then s3\<lparr>objs := upd_obj ?a (\<lambda>ord. ord\<lparr>status := CANCELLED\<rparr>) (objs s3)\<rparr> else s3)"
          by (auto simp: execute_market_order_def split: sum.splits)
        have "heaps_ok (sa\<lparr>objs := upd_obj ?a (\<lambda>ord. ord\<lparr>price := v\<rparr>) (objs sa)\<rparr>)"
          using get_market_price_heaps[OF g ok2] by (simp add: heaps_ok_def)
        from match_order_heaps[OF mo this] show ?thesis unfolding s' by (simp add: heaps_ok_def)
      next
        case lim: False
        from sub Some co adm True lim obtain s3 where mo: "match_order ?s2 ?a now = Inr s3"
          by (auto simp: submit_order_def Let_def split: sum.splits)
        have ok3: "heaps_ok s3" using match_order_heaps[OF mo ok2] .
        show ?thesis
        proof (cases "status (objs s3 ?a) = PENDING")
          case False
          with sub Some co adm True lim mo have "s' = s3" by (simp add: submit_order_def Let_def)
          with ok3 show ?thesis by simp
        next
          case pend: True
          with sub Some co adm True lim mo obtain book book' where
            bk: "map_of (order_books s3) (upper (ticker ord)) = Some book"
            and ao: "add_order (objs s3) book ?a = Inr book'"
            and s': "s' = set_book (upper (ticker ord)) book' s3"
            by (auto simp: submit_order_def Let_def split: option.splits sum.splits)
          from heaps_ok_book[OF ok3 bk] add_order_heaps[OF ao]
          have "is_heap (bids book')" "is_heap (asks book')" by simp_all
          then show ?thesis unfolding s' using ok3 by (intro heaps_ok_set_book)
        qed
      qed
    qed
  qed
qed

subsection \<open>create_company and the trades of the loop\<close>

text \<open>
  What holds of \<open>create_company\<close>: it fails exactly when the founder is unknown, or has
  less than \<open>CREATION_COST\<close>, or the ticker as written is a key of \<open>companies\<close>; a failure
  changes nothing; a success charges exactly \<open>CREATION_COST\<close>, gives the founder 1,000,000
  shares and puts an empty book under the upper-case ticker.
\<close>

lemma create_company_effects:
  assumes "create_company s fid tkr name descr stype scost = (res, s')"
  shows "(res = None \<longleftrightarrow>
            map_of (agents s) fid = None \<or>
            (\<exists>f. map_of (agents s) fid = Some f \<and> balance f < CREATION_COST) \<or>
            map_of (companies s) tkr \<noteq> None) \<and>
         (res = None \<longrightarrow> s' = s) \<and>
         (res \<noteq> None \<longrightarrow>
            (\<exists>f. map_of (agents s) fid = Some f \<and>
                 map_option balance (map_of (agents s') fid) = Some (balance f - CREATION_COST) \<and>
                 map_option (\<lambda>a. pget (portfolio a) (upper tkr)) (map_of (agents s') fid) = Some 1000000 \<and>
                 map_option total_shares (map_of (companies s') (upper tkr)) = Some 1000000 \<and>
                 map_of (order_books s') (upper tkr) = Some \<lparr>ob_ticker = upper tkr, bids = [], asks = []\<rparr>))"
proof (cases "map_of (agents s) fid")
  case None
  with assms show ?thesis by (simp add: create_company_def)
next
  case (Some f)
  show ?thesis
  proof (cases "balance f < CREATION_COST \<or> map_of (companies s) tkr \<noteq> None")
    case True
    with assms Some show ?thesis by (auto simp: create_company_def split: if_splits)
  next
    case False
    with assms Some show ?thesis
      by (auto simp: create_company_def Let_def map_of_upd_agent update_conv' pget_update)
  qed
qed

text \<open>
  Every trade of the matching loop is made at the price of the resting order, for the
  minimum of what remains of the two orders.
\<close>

lemma trade_record:
  assumes "match_step s a now = Inr (True, s')"
  shows "\<exists>c p t. status (objs s c) = PENDING \<and> price (objs s c) = Some p \<and>
           trades s' = trades s @ [t] \<and> t_price t = p \<and>
           t_quantity t = min (quantity (objs s a) - filled_quantity (objs s a))
                              (quantity (objs s c) - filled_quantity (objs s c))"
  using assms
proof (cases rule: match_step_elim)
  case (trade book h' c)
  from best_loop_props[OF trade(2)] have pc: "status (objs s c) = PENDING" by auto
  from trade(5) obtain p where p: "price (objs s c) = Some p"
    by (auto simp: execute_trade_def Let_def split: option.splits)
  from trade(5) p obtain t where "trades s' = trades s @ [t]" "t_price t = p"
    "t_quantity t = trade_qty s a c"
    by (auto simp: execute_trade_def Let_def split: option.splits)
  with pc p show ?thesis by (auto simp: trade_qty_def)
qed simp_all

end
